theory Spec2Isabelle
  imports Main
begin

section \<open>Values, errors and the external modules\<close>

text \<open>
  JavaScript values as far as the object store and the transaction inspect them.
  Numbers are restricted to the integers and \<open>NaN\<close>; objects are association lists
  from property names to values.
\<close>

datatype jsval =
    Undefined
  | Null
  | JBool bool
  | JNum int
  | JNaN
  | JStr string
  | JArr "jsval list"
  | JObj "(string \<times> jsval) list"

text \<open>The conversion to boolean that \<open>if (x)\<close>, \<open>!!x\<close> and \<open>x && y\<close> apply.\<close>

fun truthy :: "jsval \<Rightarrow> bool" where
  "truthy Undefined = False"
| "truthy Null = False"
| "truthy (JBool b) = b"
| "truthy (JNum n) = (n \<noteq> 0)"
| "truthy JNaN = False"
| "truthy (JStr s) = (s \<noteq> [])"
| "truthy (JArr xs) = True"
| "truthy (JObj fs) = True"

text \<open>\<open>typeof x === "object"\<close>: true of \<open>null\<close>, arrays and objects.\<close>

fun typeof_object :: "jsval \<Rightarrow> bool" where
  "typeof_object Null = True"
| "typeof_object (JArr xs) = True"
| "typeof_object (JObj fs) = True"
| "typeof_object v = False"

text \<open>
  The errors the code raises, by name. \<open>SqlError\<close> is an error object handed over by the
  backend, \<open>Thrown\<close> is anything a caller's handler throws.
\<close>

datatype jserror =
    DataError
  | ConstraintError
  | ReadOnlyError
  | TransactionInactiveError
  | InvalidStateError
  | NotFoundError
  | TypeError
  | SqlError string
  | Thrown string

text \<open>
  The functions of \<open>idbModules.Key\<close> and \<open>idbModules.Sca\<close> that the object store calls.
  Their code is not part of \<open>IDBObjectStore.js\<close>; every definition below takes them as
  the parameter \<open>M\<close>, and the theorems hold for each choice of them.
  \<open>Key_validate\<close> is false where \<open>Key.validate\<close> throws its DataError; \<open>Key_setValue\<close>
  returns \<open>None\<close> and \<open>Sca_decode\<close> returns the error where they throw; \<open>Key_encode\<close>
  takes the flag \<open>multiEntry\<close> as its second argument.
\<close>

record idbModules =
  Key_getValue :: "jsval \<Rightarrow> jsval \<Rightarrow> jsval"
  Key_setValue :: "jsval \<Rightarrow> jsval \<Rightarrow> jsval \<Rightarrow> jsval option"
  Key_validate :: "jsval \<Rightarrow> bool"
  Key_encode :: "jsval \<Rightarrow> bool \<Rightarrow> string"
  Sca_encode :: "jsval \<Rightarrow> string"
  Sca_decode :: "string \<Rightarrow> jserror + jsval"

section \<open>The object store\<close>

text \<open>
  The fields of an \<open>IDBObjectStore\<close> that its methods read: \<open>keyPath\<close> as \<open>JSON.parse\<close>
  leaves it, and the indexes that \<open>indexNames\<close> lists, in that order, each with the
  fields of \<open>IDBIndex\<close> that \<open>__insertData\<close> reads.
\<close>

record index =
  index_name :: string
  index_keyPath :: jsval
  multiEntry :: bool

record objectStore =
  name :: string
  keyPath :: jsval
  autoIncrement :: bool
  indexes :: "index list"

subsection \<open>\<open>IDBObjectStore.prototype.__validateKey\<close>\<close>

definition validateKey :: "idbModules \<Rightarrow> objectStore \<Rightarrow> jsval \<Rightarrow> jsval \<Rightarrow> jserror + unit" where
  "validateKey M st v key =
     (if truthy (keyPath st) then
        (if key \<noteq> Undefined then Inl DataError
         else if truthy v \<and> typeof_object v then
           (let key' = Key_getValue M v (keyPath st) in
            if key' = Undefined then
              (if autoIncrement st then Inr () else Inl DataError)
            else (if Key_validate M key' then Inr () else Inl DataError))
         else Inl DataError)
      else
        (if key = Undefined then
           (if autoIncrement st then Inr () else Inl DataError)
         else (if Key_validate M key then Inr () else Inl DataError)))"

section \<open>The transaction\<close>

text \<open>
  The second part of \<open>IDBObjectStore.js\<close>: \<open>IDBTransaction\<close>, with the queue of requests
  and the closure \<open>executeRequests\<close> that drains it.

  What a caller does inside one handler or one turn of its own: call a method of the
  store that reaches \<open>__pushToQueue\<close> with the closure \<open>op\<close> and attach the two handlers
  to the request it returns, call \<open>abort()\<close>, or throw. A handler is a list of such
  actions, run in order; a throw ends it, and so does the exception of a push that is
  refused. Handlers are fixed when the request or the transaction is made.
\<close>

datatype 'op action =
    Enqueue 'op "'op action list" "'op action list"
  | CallAbort
  | Throw jserror

text \<open>
  An entry of \<open>__requests\<close>: the closure \<open>op\<close> and the request \<open>req\<close> with its handlers.
  \<open>rid\<close> stands for the identity of the request object: the number of requests
  queued before it.
\<close>

record 'op request =
  rid :: nat
  op :: 'op
  onsuccess :: "'op action list"
  onerror :: "'op action list"

text \<open>The fields \<open>readyState\<close>, \<open>result\<close> and \<open>error\<close> of a request once it is done.\<close>

datatype resolution = Succeeded jsval | Failed jserror

text \<open>Every call of \<open>idbModules.util.callback\<close>, and every start of a queued closure.\<close>

datatype event =
    OpBegin nat
  | OnSuccess nat jsval
  | OnError nat jserror
  | TxOnError jserror
  | DbOnError jserror
  | OnComplete
  | OnCompleteInternal
  | OnAbort
  | Uncaught jserror

datatype timer = StartTimer | AbortTimer

datatype session = NoSession | Requested | Opened

text \<open>
  The transaction object, the variables \<open>i\<close> and \<open>q\<close> of the closure \<open>executeRequests\<close>,
  and what the model records around them: the pending \<open>setTimeout\<close> callbacks of this
  transaction, whether \<open>db.transaction\<close> has been asked for and has called back, whether
  the closure started last still waits for the backend, the fields of the request
  objects, the trace of the notifications fired so far, and how many times the caller
  has called \<open>abort()\<close> itself (a handler or a turn of the caller, as against the call
  in the \<open>finally\<close> of \<open>transactionError\<close>).
\<close>

record 'op txn =
  active :: bool
  running :: bool
  errored :: bool
  requests :: "'op request list"
  mode :: string
  tx_error :: "jserror option"
  tx_onerror :: "'op action list"
  db_onerror :: "'op action list"
  oncomplete :: "'op action list"
  onabort :: "'op action list"
  idx :: nat
  cur :: "'op request option"
  timers :: "timer list"
  session :: session
  inflight :: bool
  created :: nat
  results :: "nat \<Rightarrow> resolution option"
  trace :: "event list"
  abort_calls :: nat

text \<open>
  The constructor \<open>IDBTransaction\<close>, with the handlers the caller assigns right after it.
\<close>

definition IDBTransaction ::
  "string \<Rightarrow> 'op action list \<Rightarrow> 'op action list \<Rightarrow> 'op action list \<Rightarrow> 'op action list \<Rightarrow> 'op txn" where
  "IDBTransaction m h_err h_dberr h_complete h_abort =
     \<lparr> active = True, running = False, errored = False, requests = [],
       mode = m, tx_error = None,
       tx_onerror = h_err, db_onerror = h_dberr, oncomplete = h_complete, onabort = h_abort,
       idx = 0, cur = None, timers = [StartTimer], session = NoSession, inflight = False,
       created = 0, results = (\<lambda>_. None), trace = [], abort_calls = 0 \<rparr>"

text \<open>
  A piece of code that may throw: the exception that leaves it, if any, and the
  state it leaves behind.
\<close>

type_synonym 'op comp = "'op txn \<Rightarrow> jserror option \<times> 'op txn"

subsection \<open>\<open>abort\<close>, \<open>__assertActive\<close>, \<open>__pushToQueue\<close>, \<open>__assertWritable\<close>\<close>

definition abort :: "'op txn \<Rightarrow> 'op txn" where
  "abort t = t\<lparr> active := False, timers := timers t @ [AbortTimer] \<rparr>"

definition assertActive :: "'op txn \<Rightarrow> jserror option" where
  "assertActive t = (if \<not> active t then Some TransactionInactiveError else None)"

definition pushToQueue :: "'op \<Rightarrow> 'op action list \<Rightarrow> 'op action list \<Rightarrow> 'op comp" where
  "pushToQueue f hs he t =
     (case assertActive t of
        Some e \<Rightarrow> (Some e, t)
      | None \<Rightarrow>
          (None, t\<lparr> requests := requests t @
                       [\<lparr> rid = created t, op = f, onsuccess = hs, onerror = he \<rparr>],
                     created := Suc (created t) \<rparr>))"

definition assertWritable :: "'op txn \<Rightarrow> jserror option" where
  "assertWritable t = (if mode t = ''readonly'' then Some ReadOnlyError else None)"

subsection \<open>Handlers\<close>

fun run_actions :: "'op action list \<Rightarrow> 'op comp" where
  "run_actions [] t = (None, t)"
| "run_actions (Enqueue f hs he # as) t =
     (case pushToQueue f hs he t of
        (Some e, t') \<Rightarrow> (Some e, t')
      | (None, t') \<Rightarrow> run_actions as t')"
| "run_actions (CallAbort # as) t =
     run_actions as (abort (t\<lparr> abort_calls := Suc (abort_calls t) \<rparr>))"
| "run_actions (Throw e # as) t = (Some e, t)"

text \<open>\<open>idbModules.util.callback(name, target, event)\<close>: the notification, then the handler.\<close>

definition callback :: "event \<Rightarrow> 'op action list \<Rightarrow> 'op comp" where
  "callback ev h t = run_actions h (t\<lparr> trace := trace t @ [ev] \<rparr>)"

subsection \<open>\<open>transactionError\<close> and \<open>transactionFinished\<close>\<close>

text \<open>
  \<open>transactionError\<close> notifies \<open>onerror\<close> of the transaction and of its database inside a
  \<open>try\<close> whose \<open>finally\<close> calls \<open>abort()\<close>. \<open>transactionFinished\<close> notifies \<open>oncomplete\<close>
  and the internal \<open>__oncomplete\<close>; the handler behind the latter belongs to the database
  and is taken not to throw.
\<close>

definition transactionError :: "jserror \<Rightarrow> 'op comp" where
  "transactionError err t =
     (if errored t then (None, t)
      else
        let t1 = t\<lparr> errored := True \<rparr> in
        if \<not> active t1 then (Some err, t1)
        else
          let t2 = t1\<lparr> tx_error := Some err \<rparr>;
              (x, t3) = (case callback (TxOnError err) (tx_onerror t2) t2 of
                           (Some e, t') \<Rightarrow> (Some e, t')
                         | (None, t') \<Rightarrow> callback (DbOnError err) (db_onerror t') t')
          in (x, abort t3))"

definition transactionFinished :: "'op comp" where
  "transactionFinished t =
     (case callback OnComplete (oncomplete t) t of
        (Some e, t') \<Rightarrow> (Some e, t'\<lparr> errored := True \<rparr>)
      | (None, t') \<Rightarrow> (None, t'\<lparr> trace := trace t' @ [OnCompleteInternal] \<rparr>))"

subsection \<open>The continuations \<open>error\<close> and \<open>success\<close>, and \<open>executeNextRequest\<close>\<close>

text \<open>
  \<open>try { ... } finally { ... }\<close>: the second block runs whatever the first one does; an
  exception of the second block replaces the one of the first.
\<close>

definition try_finally :: "'op comp \<Rightarrow> 'op comp \<Rightarrow> 'op comp" where
  "try_finally body fin t =
     (let (x, t1) = body t; (y, t2) = fin t1
      in (case y of Some e \<Rightarrow> Some e | None \<Rightarrow> x, t2))"

text \<open>
  The body of the \<open>try\<close> in \<open>error\<close>: the request of \<open>q\<close> is marked done with the error
  and its \<open>onerror\<close> is called. Reading \<open>q.req\<close> while \<open>q\<close> is still \<open>null\<close> throws a
  TypeError.
\<close>

definition fire_request_error :: "jserror \<Rightarrow> 'op comp" where
  "fire_request_error err t =
     (case cur t of
        None \<Rightarrow> (Some TypeError, t)
      | Some q \<Rightarrow>
          callback (OnError (rid q) err) (onerror q)
            (t\<lparr> results := (results t)(rid q \<mapsto> Failed err) \<rparr>))"

definition error :: "jserror \<Rightarrow> 'op comp" where
  "error err = try_finally (fire_request_error err) (transactionError err)"

text \<open>
  What a queued closure does when \<open>executeNextRequest\<close> calls it: it issues a statement
  to the backend and returns (one of its continuations is called in a later turn, when
  the backend answers), or it throws before that, or it calls its \<open>error\<close> continuation
  at once, as the \<open>catch\<close> of \<open>__insertData\<close> does. The parameter \<open>beh\<close> of the
  definitions below gives this for each closure.
\<close>

datatype op_start = CallsBackend | ThrowsSync jserror | FailsSync jserror

definition start_op :: "('op \<Rightarrow> op_start) \<Rightarrow> 'op request \<Rightarrow> 'op comp" where
  "start_op beh q t =
     (let t1 = t\<lparr> trace := trace t @ [OpBegin (rid q)] \<rparr> in
      case beh (op q) of
        CallsBackend \<Rightarrow> (None, t1\<lparr> inflight := True \<rparr>)
      | ThrowsSync e \<Rightarrow> (Some e, t1)
      | FailsSync e \<Rightarrow> error e t1)"

definition executeNextRequest :: "('op \<Rightarrow> op_start) \<Rightarrow> 'op comp" where
  "executeNextRequest beh t =
     (if idx t \<ge> length (requests t) then
        (let t1 = t\<lparr> requests := [] \<rparr> in
         if active t1 then transactionFinished (t1\<lparr> active := False \<rparr>)
         else (None, t1))
      else
        (let q = requests t ! idx t in
         case start_op beh q (t\<lparr> cur := Some q \<rparr>) of
           (Some e, t') \<Rightarrow> error e t'
         | (None, t') \<Rightarrow> (None, t')))"

text \<open>
  \<open>success(result, req)\<close> without its second argument, which only cursors pass.
\<close>

definition success :: "('op \<Rightarrow> op_start) \<Rightarrow> jsval \<Rightarrow> 'op comp" where
  "success beh result t =
     (case cur t of
        None \<Rightarrow> (Some TypeError, t)
      | Some q \<Rightarrow>
          (case callback (OnSuccess (rid q) result) (onsuccess q)
                  (t\<lparr> results := (results t)(rid q \<mapsto> Succeeded result) \<rparr>) of
             (Some e, t') \<Rightarrow> (Some e, t')
           | (None, t') \<Rightarrow> executeNextRequest beh (t'\<lparr> idx := Suc (idx t') \<rparr>)))"

subsection \<open>\<open>__executeRequests\<close> and the turns of the event loop\<close>

definition executeRequests :: "'op comp" where
  "executeRequests t =
     (if running t then (None, t)
      else (None, t\<lparr> running := True, session := Requested \<rparr>))"

text \<open>
  One turn of the event loop, as far as this transaction takes part in it:
  the oldest timer of the transaction fires; \<open>db.transaction\<close> calls \<open>executeRequests(tx)\<close>
  (once, after it was asked to); the backend answers the statement of the closure in
  flight, which calls its \<open>success\<close> or its \<open>error\<close> continuation; the backend reports
  an error of the physical transaction to \<open>webSqlError\<close>; or the caller runs code of
  its own.

  Two closures of the object store call a continuation inside a \<open>try\<close> and call one
  again when the first call throws: the callback of \<open>get\<close> calls \<open>success\<close> a second
  time (\<open>SuccessRetried\<close>), and the \<open>catch\<close> of \<open>__deriveKey\<close> calls \<open>failure\<close>, that is
  \<open>error\<close>, after the \<open>error\<close> call of \<open>__insertData\<close> has thrown (\<open>ErrorRetried\<close>).
\<close>

datatype 'op turn =
    Timeout
  | SessionOpen
  | StatementSuccess jsval
  | StatementError jserror
  | SuccessRetried jsval
  | ErrorRetried jserror jserror
  | WebSqlError jserror
  | Caller "'op action list"

definition turn :: "('op \<Rightarrow> op_start) \<Rightarrow> 'op turn \<Rightarrow> 'op comp" where
  "turn beh ev t =
     (case ev of
        Timeout \<Rightarrow>
          (case timers t of
             [] \<Rightarrow> (None, t)
           | StartTimer # ts \<Rightarrow> executeRequests (t\<lparr> timers := ts \<rparr>)
           | AbortTimer # ts \<Rightarrow> callback OnAbort (onabort t) (t\<lparr> timers := ts \<rparr>))
      | SessionOpen \<Rightarrow>
          (if session t = Requested then executeNextRequest beh (t\<lparr> session := Opened \<rparr>)
           else (None, t))
      | StatementSuccess v \<Rightarrow>
          (if inflight t then success beh v (t\<lparr> inflight := False \<rparr>) else (None, t))
      | StatementError e \<Rightarrow>
          (if inflight t then error e (t\<lparr> inflight := False \<rparr>) else (None, t))
      | SuccessRetried v \<Rightarrow>
          (if inflight t then
             (case success beh v (t\<lparr> inflight := False \<rparr>) of
                (None, t') \<Rightarrow> (None, t')
              | (Some x, t') \<Rightarrow> success beh v t')
           else (None, t))
      | ErrorRetried e e' \<Rightarrow>
          (if inflight t then
             (case error e (t\<lparr> inflight := False \<rparr>) of
                (None, t') \<Rightarrow> (None, t')
              | (Some x, t') \<Rightarrow> error e' t')
           else (None, t))
      | WebSqlError e \<Rightarrow>
          (if session t = NoSession then (None, t) else transactionError e t)
      | Caller acts \<Rightarrow> run_actions acts t)"

text \<open>An exception that leaves a turn is uncaught; the trace records it.\<close>

definition step :: "('op \<Rightarrow> op_start) \<Rightarrow> 'op txn \<Rightarrow> 'op turn \<Rightarrow> 'op txn" where
  "step beh t ev =
     (case turn beh ev t of
        (None, t') \<Rightarrow> t'
      | (Some e, t') \<Rightarrow> t'\<lparr> trace := trace t' @ [Uncaught e] \<rparr>)"

definition run :: "('op \<Rightarrow> op_start) \<Rightarrow> 'op turn list \<Rightarrow> 'op txn \<Rightarrow> 'op txn" where
  "run beh evs t = foldl (step beh) t evs"

section \<open>The methods of the object store\<close>

text \<open>
  The closures the methods queue, by the name the source gives each, with the
  variables each one captures.
\<close>

datatype unit_of_work =
    ObjectStoreAdd objectStore jsval jsval
  | ObjectStorePut objectStore jsval jsval
  | ObjectStoreGet objectStore string
  | ObjectStoreDelete objectStore string
  | ObjectStoreClear objectStore
  | ObjectStoreCount objectStore jsval

text \<open>The \<open>n\<close>-th argument of a call: \<open>undefined\<close> when the call has fewer arguments.\<close>

definition arg :: "jsval list \<Rightarrow> nat \<Rightarrow> jsval" where
  "arg args n = (if n < length args then args ! n else Undefined)"

text \<open>
  Each method takes the arguments of the call and the two handlers the caller assigns
  to the request that the method returns. An exception leaves the transaction as it was.
\<close>

definition add ::
  "idbModules \<Rightarrow> objectStore \<Rightarrow> jsval list \<Rightarrow>
   unit_of_work action list \<Rightarrow> unit_of_work action list \<Rightarrow> unit_of_work comp" where
  "add M st args hs he t =
     (if length args = 0 then (Some TypeError, t)
      else case validateKey M st (arg args 0) (arg args 1) of
        Inl e \<Rightarrow> (Some e, t)
      | Inr _ \<Rightarrow>
          (case assertWritable t of
             Some e \<Rightarrow> (Some e, t)
           | None \<Rightarrow> pushToQueue (ObjectStoreAdd st (arg args 0) (arg args 1)) hs he t))"

definition put ::
  "idbModules \<Rightarrow> objectStore \<Rightarrow> jsval list \<Rightarrow>
   unit_of_work action list \<Rightarrow> unit_of_work action list \<Rightarrow> unit_of_work comp" where
  "put M st args hs he t =
     (if length args = 0 then (Some TypeError, t)
      else case validateKey M st (arg args 0) (arg args 1) of
        Inl e \<Rightarrow> (Some e, t)
      | Inr _ \<Rightarrow>
          (case assertWritable t of
             Some e \<Rightarrow> (Some e, t)
           | None \<Rightarrow> pushToQueue (ObjectStorePut st (arg args 0) (arg args 1)) hs he t))"

definition get ::
  "idbModules \<Rightarrow> objectStore \<Rightarrow> jsval list \<Rightarrow>
   unit_of_work action list \<Rightarrow> unit_of_work action list \<Rightarrow> unit_of_work comp" where
  "get M st args hs he t =
     (if length args = 0 then (Some TypeError, t)
      else if \<not> Key_validate M (arg args 0) then (Some DataError, t)
      else pushToQueue (ObjectStoreGet st (Key_encode M (arg args 0) False)) hs he t)"

definition delete ::
  "idbModules \<Rightarrow> objectStore \<Rightarrow> jsval list \<Rightarrow>
   unit_of_work action list \<Rightarrow> unit_of_work action list \<Rightarrow> unit_of_work comp" where
  "delete M st args hs he t =
     (if length args = 0 then (Some TypeError, t)
      else case assertWritable t of
        Some e \<Rightarrow> (Some e, t)
      | None \<Rightarrow>
          (if \<not> Key_validate M (arg args 0) then (Some DataError, t)
           else pushToQueue (ObjectStoreDelete st (Key_encode M (arg args 0) False)) hs he t))"

definition clear ::
  "objectStore \<Rightarrow> unit_of_work action list \<Rightarrow> unit_of_work action list \<Rightarrow> unit_of_work comp" where
  "clear st hs he t =
     (case assertWritable t of
        Some e \<Rightarrow> (Some e, t)
      | None \<Rightarrow> pushToQueue (ObjectStoreClear st) hs he t)"

text \<open>\<open>count\<close> with a key or without one; a key range goes to the cursor, which is not modelled.\<close>

definition count ::
  "idbModules \<Rightarrow> objectStore \<Rightarrow> jsval list \<Rightarrow>
   unit_of_work action list \<Rightarrow> unit_of_work action list \<Rightarrow> unit_of_work comp" where
  "count M st args hs he t =
     (if arg args 0 \<noteq> Undefined \<and> \<not> Key_validate M (arg args 0) then (Some DataError, t)
      else pushToQueue (ObjectStoreCount st (arg args 0)) hs he t)"

section \<open>The queued closures and the backend\<close>

subsection \<open>The backend\<close>

text \<open>
  What the backend hands to the callbacks of \<open>tx.executeSql\<close>: the rows, to the success
  callback, or an error with its message, to the error callback.
\<close>

datatype 'a answer = Rows 'a | SqlFailure string

text \<open>A row of \<open>sqlite_sequence\<close>.\<close>

record seq_row =
  seq_name :: string
  seq :: int

text \<open>
  Modelled from the spec: the Record Store Executor, the table of one store behind
  \<open>tx.executeSql\<close>. Its code is not in this repository. A row is the columns an
  \<open>INSERT\<close> names with their parameters, and the column \<open>value\<close>. The table keeps the
  column \<open>key\<close> unique, as \<open>CREATE TABLE\<close> in \<open>__createObjectStore\<close> asks for: an insert
  fails when a row with the same key is there, and fails in no other case. Deleting by
  key removes the rows with that key and does not fail.
\<close>

record row =
  cols :: "(string \<times> string) list"
  value_col :: string

definition row_key :: "row \<Rightarrow> string option" where
  "row_key r = map_of (cols r) ''key''"

definition sql_insert :: "row list \<Rightarrow> (string \<times> string) list \<Rightarrow> string \<Rightarrow> row list option" where
  "sql_insert tbl pm encoded =
     (case map_of pm ''key'' of
        None \<Rightarrow> Some (tbl @ [\<lparr> cols = pm, value_col = encoded \<rparr>])
      | Some k \<Rightarrow>
          (if Some k \<in> set (map row_key tbl) then None
           else Some (tbl @ [\<lparr> cols = pm, value_col = encoded \<rparr>])))"

definition sql_delete :: "row list \<Rightarrow> string \<Rightarrow> row list" where
  "sql_delete tbl k = filter (\<lambda>r. row_key r \<noteq> Some k) tbl"

subsection \<open>What a closure ends with\<close>

text \<open>
  A closure ends by calling its \<open>success\<close> continuation with a result, by calling its
  \<open>error\<close> continuation with an error, or by throwing: before it returns to
  \<open>executeNextRequest\<close>, or later inside a callback of the backend, where nothing of
  this code catches it. The two continuations are taken to return normally here, and
  \<open>Sca.encode\<close> to call its callback before it returns.
\<close>

datatype outcome =
    CallsSuccess jsval
  | CallsError jserror
  | Throws jserror
  | ThrowsInCallback jserror

text \<open>Code that runs as a callback of \<open>tx.executeSql\<close>: what it throws is thrown there.\<close>

fun in_callback :: "outcome \<times> 'b \<Rightarrow> outcome \<times> 'b" where
  "in_callback (Throws e, b) = (ThrowsInCallback e, b)"
| "in_callback (r, b) = (r, b)"

subsection \<open>Numbers\<close>

text \<open>
  A number of JavaScript is a double. The model keeps the numbers that are integers
  (\<open>JNum\<close>) and writes the rounding of a sum out: \<open>to_double x\<close> is the double nearest to
  the integer \<open>x\<close>, a tie going to the even significand of 53 bits, and \<open>js_add\<close> is \<open>+\<close>
  on two such numbers. Up to \<open>2 ^ 53\<close> the sum is exact; \<open>2 ^ 53 + 1\<close> is \<open>2 ^ 53\<close> again.
  (Doubles end near \<open>2 ^ 1024\<close>; the integers of the backend stay below \<open>2 ^ 63\<close>.)
\<close>

fun shift_of :: "nat \<Rightarrow> nat" where
  "shift_of m = (if m < 2 ^ 53 then 0 else Suc (shift_of (m div 2)))"

declare shift_of.simps [simp del]

definition to_double :: "int \<Rightarrow> int" where
  "to_double x =
     (let m = nat \<bar>x\<bar>; e = shift_of m; q = m div 2 ^ e; r = m mod 2 ^ e;
          q' = (if 2 ^ e < 2 * r \<or> (2 * r = 2 ^ e \<and> odd q) then Suc q else q)
      in sgn x * int (q' * 2 ^ e))"

definition js_add :: "int \<Rightarrow> int \<Rightarrow> int" where
  "js_add a b = to_double (a + b)"

subsection \<open>\<open>IDBObjectStore.prototype.__deriveKey\<close>\<close>

text \<open>
  \<open>lookup\<close> is the answer of the backend to the statement on \<open>sqlite_sequence\<close>, which
  selects with \<open>name like ?\<close>: the rows whose name matches the name of the store read as
  a pattern.
\<close>

definition getNextAutoIncKey ::
  "seq_row list answer \<Rightarrow> (jsval \<Rightarrow> outcome \<times> 'b) \<Rightarrow> (jserror \<Rightarrow> outcome \<times> 'b) \<Rightarrow> outcome \<times> 'b" where
  "getNextAutoIncKey lookup callback_k failure_k =
     in_callback
       (case lookup of
          Rows rows \<Rightarrow>
            (if length rows \<noteq> 1 then callback_k (JNum 1)
             else callback_k (JNum (js_add (seq (rows ! 0)) 1)))
        | SqlFailure m \<Rightarrow> failure_k DataError)"

text \<open>
  The continuation \<open>success\<close> (here \<open>success_k\<close>) gets the primary key and the value as \<open>Key.setValue\<close> has
  left it (the source updates the object in place).
\<close>

definition deriveKey ::
  "idbModules \<Rightarrow> objectStore \<Rightarrow> seq_row list answer \<Rightarrow> jsval \<Rightarrow> jsval \<Rightarrow>
   (jsval \<Rightarrow> jsval \<Rightarrow> outcome \<times> 'b) \<Rightarrow> (jserror \<Rightarrow> outcome \<times> 'b) \<Rightarrow> outcome \<times> 'b" where
  "deriveKey M st lookup v key success_k failure_k =
     (if truthy (keyPath st) then
        (let primaryKey = Key_getValue M v (keyPath st) in
         if primaryKey = Undefined \<and> autoIncrement st then
           getNextAutoIncKey lookup
             (\<lambda>primaryKey.
                case Key_setValue M v (keyPath st) primaryKey of
                  None \<Rightarrow> failure_k DataError
                | Some v' \<Rightarrow>
                    (case success_k primaryKey v' of
                       (Throws e, b) \<Rightarrow> failure_k DataError
                     | r \<Rightarrow> r))
             failure_k
         else success_k primaryKey v)
      else
        (if key = Undefined \<and> autoIncrement st then
           getNextAutoIncKey lookup (\<lambda>primaryKey. success_k primaryKey v) failure_k
         else success_k key v))"

subsection \<open>\<open>IDBObjectStore.prototype.__insertData\<close>\<close>

text \<open>
  Assigning a property of an object: an existing property keeps its place. The columns
  of the \<open>INSERT\<close> are the properties of \<open>paramMap\<close> in this order (\<open>for ... in\<close> puts names
  that read as array indices first; the order of the columns changes nothing in what a
  row holds).
\<close>

fun obj_set :: "string \<Rightarrow> 'a \<Rightarrow> (string \<times> 'a) list \<Rightarrow> (string \<times> 'a) list" where
  "obj_set k v [] = [(k, v)]"
| "obj_set k v ((k', v') # xs) = (if k = k' then (k, v) # xs else (k', v') # obj_set k v xs)"

definition paramMap :: "idbModules \<Rightarrow> objectStore \<Rightarrow> jsval \<Rightarrow> jsval \<Rightarrow> (string \<times> string) list" where
  "paramMap M st v primaryKey =
     foldl (\<lambda>pm ix. obj_set (index_name ix)
                      (Key_encode M (Key_getValue M v (index_keyPath ix)) (multiEntry ix)) pm)
       (if primaryKey \<noteq> Undefined then obj_set ''key'' (Key_encode M primaryKey False) [] else [])
       (indexes st)"

definition insertData ::
  "idbModules \<Rightarrow> objectStore \<Rightarrow> row list \<Rightarrow> string \<Rightarrow> jsval \<Rightarrow> jsval \<Rightarrow> outcome \<times> row list" where
  "insertData M st tbl encoded v primaryKey =
     (if primaryKey \<noteq> Undefined \<and> \<not> Key_validate M primaryKey then (CallsError DataError, tbl)
      else
        (case sql_insert tbl (paramMap M st v primaryKey) encoded of
           None \<Rightarrow> (CallsError ConstraintError, tbl)
         | Some tbl' \<Rightarrow>
             (case Sca_decode M (Sca_encode M primaryKey) of
                Inl e \<Rightarrow> (ThrowsInCallback e, tbl')
              | Inr primaryKey' \<Rightarrow> (CallsSuccess primaryKey', tbl'))))"

subsection \<open>The closures of \<open>add\<close>, \<open>put\<close> and \<open>get\<close>\<close>

definition objectStoreAdd ::
  "idbModules \<Rightarrow> objectStore \<Rightarrow> jsval \<Rightarrow> jsval \<Rightarrow> seq_row list answer \<Rightarrow> row list \<Rightarrow>
   outcome \<times> row list" where
  "objectStoreAdd M st v key lookup tbl =
     deriveKey M st lookup v key
       (\<lambda>primaryKey v'. insertData M st tbl (Sca_encode M v') v' primaryKey)
       (\<lambda>e. (CallsError e, tbl))"

definition objectStorePut ::
  "idbModules \<Rightarrow> objectStore \<Rightarrow> jsval \<Rightarrow> jsval \<Rightarrow> seq_row list answer \<Rightarrow> row list \<Rightarrow>
   outcome \<times> row list" where
  "objectStorePut M st v key lookup tbl =
     deriveKey M st lookup v key
       (\<lambda>primaryKey v'.
          if \<not> Key_validate M primaryKey then (Throws DataError, tbl)
          else in_callback
                 (insertData M st (sql_delete tbl (Key_encode M primaryKey False))
                    (Sca_encode M v') v' primaryKey))
       (\<lambda>e. (CallsError e, tbl))"

text \<open>
  The callbacks of the statement of \<open>get\<close>. Here the continuations may throw:
  \<open>return success()\<close> stands inside the \<open>try\<close>, whose \<open>catch\<close> goes on to \<open>success(value)\<close>.
\<close>

definition objectStoreGet ::
  "idbModules \<Rightarrow> (jsval \<Rightarrow> 's \<Rightarrow> jserror option \<times> 's) \<Rightarrow> (jserror \<Rightarrow> 's \<Rightarrow> jserror option \<times> 's) \<Rightarrow>
   row list answer \<Rightarrow> 's \<Rightarrow> jserror option \<times> 's" where
  "objectStoreGet M success_k error_k ans s =
     (case ans of
        SqlFailure m \<Rightarrow> error_k (SqlError m) s
      | Rows rows \<Rightarrow>
          (if 0 = length rows then
             (case success_k Undefined s of
                (None, s') \<Rightarrow> (None, s')
              | (Some e, s') \<Rightarrow> success_k Undefined s')
           else
             (case Sca_decode M (value_col (rows ! 0)) of
                Inl e \<Rightarrow> success_k Undefined s
              | Inr v \<Rightarrow> success_k v s)))"

section \<open>Sample modules, to run the definitions\<close>

text \<open>
  One choice of the external functions, for evaluating the definitions at concrete
  inputs: key paths of one segment, numbers and strings as keys, numbers encoded in
  unary. The theorems do not depend on it.
\<close>

definition getValue0 :: "jsval \<Rightarrow> jsval \<Rightarrow> jsval" where
  "getValue0 v p =
     (case (v, p) of
        (JObj fs, JStr k) \<Rightarrow> (case map_of fs k of Some x \<Rightarrow> x | None \<Rightarrow> Undefined)
      | _ \<Rightarrow> Undefined)"

definition setValue0 :: "jsval \<Rightarrow> jsval \<Rightarrow> jsval \<Rightarrow> jsval option" where
  "setValue0 v p k =
     (case (v, p) of
        (JObj fs, JStr n) \<Rightarrow> Some (JObj (obj_set n k fs))
      | _ \<Rightarrow> None)"

definition validate0 :: "jsval \<Rightarrow> bool" where
  "validate0 k = (case k of JNum n \<Rightarrow> True | JStr s \<Rightarrow> True | _ \<Rightarrow> False)"

definition encode0 :: "jsval \<Rightarrow> bool \<Rightarrow> string" where
  "encode0 k m =
     (case k of
        JNum n \<Rightarrow> CHR ''n'' # replicate (nat n) CHR ''1''
      | JStr s \<Rightarrow> CHR ''s'' # s
      | _ \<Rightarrow> ''u'')"

definition sca_decode0 :: "string \<Rightarrow> jserror + jsval" where
  "sca_decode0 s =
     (case s of
        [] \<Rightarrow> Inl (Thrown ''empty'')
      | c # r \<Rightarrow>
          (if c = CHR ''n'' then Inr (JNum (int (length r)))
           else if c = CHR ''s'' then Inr (JStr r)
           else Inl (Thrown ''malformed'')))"

definition M0 :: idbModules where
  "M0 = \<lparr> Key_getValue = getValue0, Key_setValue = setValue0, Key_validate = validate0,
          Key_encode = encode0, Sca_encode = (\<lambda>v. encode0 v False), Sca_decode = sca_decode0 \<rparr>"

text \<open>Two stores: one with the key path \<open>id\<close>, one with out-of-line keys.\<close>

definition store_inline :: "bool \<Rightarrow> objectStore" where
  "store_inline ai = \<lparr> name = ''items'', keyPath = JStr ''id'', autoIncrement = ai, indexes = [] \<rparr>"

definition store_outline :: "bool \<Rightarrow> objectStore" where
  "store_outline ai = \<lparr> name = ''items'', keyPath = Null, autoIncrement = ai, indexes = [] \<rparr>"

text \<open>
  An auto-increment store whose name holds \<open>_\<close>, which \<open>LIKE\<close> reads as a wildcard: the
  statement of \<open>getNextAutoIncKey\<close> for it also matches the row of a store named \<open>abc\<close>.
\<close>

definition store_wild :: objectStore where
  "store_wild = \<lparr> name = ''a_c'', keyPath = Null, autoIncrement = True, indexes = [] \<rparr>"

text \<open>
  A store with out-of-line keys and an index that is named \<open>key\<close>, as the column of the
  primary key is; \<open>createIndex\<close> takes any name.
\<close>

definition store_keyindex :: objectStore where
  "store_keyindex =
     \<lparr> name = ''items'', keyPath = Null, autoIncrement = False,
       indexes = [\<lparr> index_name = ''key'', index_keyPath = JStr ''k'', multiEntry = False \<rparr>] \<rparr>"

text \<open>A fresh read-write transaction without handlers.\<close>

definition tx0 :: "unit_of_work txn" where
  "tx0 = IDBTransaction ''readwrite'' [] [] [] []"

text \<open>Every closure issues a statement and waits for the backend.\<close>

definition beh0 :: "unit_of_work \<Rightarrow> op_start" where
  "beh0 f = CallsBackend"

text \<open>
  A transaction whose only operation waits for the backend; the \<open>onerror\<close> handler of
  its request throws.
\<close>

definition tx_inflight :: "unit_of_work txn" where
  "tx_inflight =
     run beh0 [Caller [Enqueue (ObjectStoreClear (store_outline False)) [] [Throw (Thrown ''handler'')]],
               Timeout, SessionOpen] tx0"

section \<open>Reading the trace\<close>

text \<open>
  The events of the queued operations: the start of a closure and the two notifications
  that resolve a request.
\<close>

fun is_op :: "event \<Rightarrow> bool" where
  "is_op (OpBegin j) = True"
| "is_op (OnSuccess j v) = True"
| "is_op (OnError j e) = True"
| "is_op ev = False"

definition ops :: "event list \<Rightarrow> event list" where
  "ops tr = filter is_op tr"

text \<open>
  The order of the operations in a trace, read from left to right. The state \<open>(k, busy)\<close>
  says that the operations \<open>0 .. k - 1\<close> are resolved and that operation \<open>k\<close> is in
  flight (\<open>busy\<close>) or not yet started. Operation \<open>k\<close> may start only while nothing is in
  flight; it is resolved by its own success or error notification, while it is in
  flight. A further notification for the operation resolved last is let through (a
  continuation is called again where a \<open>catch\<close> has taken the exception of its first
  call). Anything else is out of order: \<open>None\<close>.
\<close>

fun op_step :: "nat \<times> bool \<Rightarrow> event \<Rightarrow> (nat \<times> bool) option" where
  "op_step (k, busy) (OpBegin j) = (if \<not> busy \<and> j = k then Some (k, True) else None)"
| "op_step (k, busy) (OnSuccess j v) =
     (if busy \<and> j = k then Some (Suc k, False)
      else if \<not> busy \<and> Suc j = k then Some (k, False)
      else None)"
| "op_step (k, busy) (OnError j e) =
     (if busy \<and> j = k then Some (Suc k, False)
      else if \<not> busy \<and> Suc j = k then Some (k, False)
      else None)"
| "op_step (k, busy) ev = Some (k, busy)"

fun in_order :: "nat \<times> bool \<Rightarrow> event list \<Rightarrow> (nat \<times> bool) option" where
  "in_order s [] = Some s"
| "in_order s (ev # evs) = (case op_step s ev of None \<Rightarrow> None | Some s' \<Rightarrow> in_order s' evs)"

text \<open>
  The trace of a transaction whose operations, numbered from \<open>i\<close> on, each start, are
  answered with the next value of the list, and resolve before the next one starts; the
  completion notifications follow the last one.
\<close>

fun fifo_trace :: "nat \<Rightarrow> jsval list \<Rightarrow> event list" where
  "fifo_trace i [] = [OnComplete, OnCompleteInternal]"
| "fifo_trace i (v # vs) = OpBegin i # OnSuccess i v # fifo_trace (Suc i) vs"

text \<open>The notifications that end a transaction from inside: completion and error.\<close>

fun is_terminal :: "event \<Rightarrow> bool" where
  "is_terminal OnComplete = True"
| "is_terminal (TxOnError e) = True"
| "is_terminal ev = False"

definition terminals :: "event list \<Rightarrow> nat" where
  "terminals tr = length (filter is_terminal tr)"

text \<open>
  \<open>emits P t t'\<close>: the trace of \<open>t'\<close> is the trace of \<open>t\<close> with further events, all of which
  satisfy \<open>P\<close>.
\<close>

definition emits :: "(event \<Rightarrow> bool) \<Rightarrow> 'op txn \<Rightarrow> 'op txn \<Rightarrow> bool" where
  "emits P t t' \<longleftrightarrow>
     take (length (trace t)) (trace t') = trace t \<and>
     list_all P (drop (length (trace t)) (trace t'))"

text \<open>
  At most one of the completion and the error notification has fired, and none of them
  while the transaction is still active.
\<close>

definition one_terminal :: "'op txn \<Rightarrow> bool" where
  "one_terminal t \<longleftrightarrow>
     terminals (trace t) \<le> 1 \<and> (\<not> active t \<or> terminals (trace t) = 0)"

text \<open>
  The abort notifications of a transaction: those that have fired, and those that a
  call of \<open>abort()\<close> has left behind with a timer that has not fired yet. The error
  notifications and the completion notifications that have fired.
\<close>

definition aborts_fired :: "event list \<Rightarrow> nat" where
  "aborts_fired tr = length (filter (\<lambda>ev. ev = OnAbort) tr)"

definition aborts_pending :: "'op txn \<Rightarrow> nat" where
  "aborts_pending t = length (filter (\<lambda>x. x = AbortTimer) (timers t))"

fun is_tx_error :: "event \<Rightarrow> bool" where
  "is_tx_error (TxOnError e) = True"
| "is_tx_error ev = False"

definition tx_errors :: "event list \<Rightarrow> nat" where
  "tx_errors tr = length (filter is_tx_error tr)"

definition completions :: "event list \<Rightarrow> nat" where
  "completions tr = length (filter (\<lambda>ev. ev = OnComplete) tr)"

text \<open>
  The abort notifications of a transaction, fired or pending, that are not accounted for
  by an error notification or by a call of \<open>abort()\<close> by the caller.
\<close>

definition abort_excess :: "'op txn \<Rightarrow> int" where
  "abort_excess t =
     int (aborts_fired (trace t)) + int (aborts_pending t)
       - int (tx_errors (trace t)) - int (abort_calls t)"

text \<open>
  The events that show an operation failing or a turn ending in an exception, and the
  events a transaction has fired since an earlier state.
\<close>

fun is_failure :: "event \<Rightarrow> bool" where
  "is_failure (OnError j e) = True"
| "is_failure (Uncaught e) = True"
| "is_failure ev = False"

definition new_events :: "'op txn \<Rightarrow> 'op txn \<Rightarrow> event list" where
  "new_events t t' = drop (length (trace t)) (trace t')"

text \<open>
  The queue as \<open>__pushToQueue\<close> builds it: the request at position \<open>i\<close> is the \<open>i\<close>-th one
  queued, and while the transaction is active every request queued so far is in it.
\<close>

definition queue_ok :: "'op txn \<Rightarrow> bool" where
  "queue_ok t \<longleftrightarrow>
     list_all (\<lambda>i. rid (requests t ! i) = i) [0 ..< length (requests t)] \<and>
     (\<not> active t \<or> created t = length (requests t))"

text \<open>
  What the handlers and the transaction-level notifications leave as it is: the
  variables of the scheduler, the operation events of the trace, and the requests
  already queued. They may append to the queue, deactivate the transaction and set
  \<open>errored\<close>.
\<close>

definition frame :: "'op txn \<Rightarrow> 'op txn \<Rightarrow> bool" where
  "frame t t' \<longleftrightarrow>
     idx t' = idx t \<and> cur t' = cur t \<and> inflight t' = inflight t \<and>
     session t' = session t \<and> running t' = running t \<and> results t' = results t \<and>
     tx_onerror t' = tx_onerror t \<and> db_onerror t' = db_onerror t \<and>
     oncomplete t' = oncomplete t \<and> onabort t' = onabort t \<and>
     ops (trace t') = ops (trace t) \<and>
     length (requests t) \<le> length (requests t') \<and>
     take (length (requests t)) (requests t') = requests t \<and>
     (queue_ok t \<longrightarrow> queue_ok t') \<and>
     (active t' \<longrightarrow> active t) \<and>
     (errored t \<longrightarrow> errored t')"

text \<open>
  The invariant of the scheduler between two turns: the trace is in order, and the
  operation it shows in flight is the one at position \<open>i\<close> of the queue, held in \<open>q\<close>;
  before \<open>db.transaction\<close> has called back no operation has run.
\<close>

definition sched_ok :: "'op txn \<Rightarrow> bool" where
  "sched_ok t \<longleftrightarrow>
     queue_ok t \<and>
     (\<exists>k. in_order (0, False) (trace t) = Some (k, inflight t) \<and>
          (inflight t \<longrightarrow> k = idx t \<and> idx t < length (requests t) \<and>
                           cur t = Some (requests t ! idx t)))"

text \<open>
  The state in which a continuation has thrown: nothing is in flight, the operation in
  \<open>q\<close> is the one resolved last, and either \<open>i\<close> still points at it or the queue has been
  cleared and closed.
\<close>

definition retry_ok :: "'op txn \<Rightarrow> bool" where
  "retry_ok t \<longleftrightarrow>
     queue_ok t \<and> \<not> inflight t \<and>
     (case cur t of
        None \<Rightarrow> False
      | Some q \<Rightarrow>
          in_order (0, False) (trace t) = Some (Suc (rid q), False) \<and>
          (idx t = rid q \<or> (requests t = [] \<and> \<not> active t)))"

definition sched_inv :: "'op txn \<Rightarrow> bool" where
  "sched_inv t \<longleftrightarrow>
     sched_ok t \<and>
     (session t \<noteq> Opened \<longrightarrow> \<not> inflight t \<and> idx t = 0 \<and> ops (trace t) = []) \<and>
     (session t \<noteq> NoSession \<longrightarrow> running t)"

section \<open>Lemmas about the scheduler\<close>

subsection \<open>Handlers leave the scheduler's variables alone\<close>

lemma pushToQueue_if:
  "pushToQueue f hs he t =
     (if active t
      then (None, t\<lparr> requests := requests t @
                       [\<lparr> rid = created t, op = f, onsuccess = hs, onerror = he \<rparr>],
                     created := Suc (created t) \<rparr>)
      else (Some TransactionInactiveError, t))"
  by (simp add: pushToQueue_def assertActive_def)

lemma run_actions_trace [simp]: "trace (snd (run_actions h t)) = trace t"
  by (induction h t rule: run_actions.induct) (simp_all add: pushToQueue_if abort_def)

lemma run_actions_errored [simp]: "errored (snd (run_actions h t)) = errored t"
  by (induction h t rule: run_actions.induct) (simp_all add: pushToQueue_if abort_def)

lemma run_actions_idx [simp]: "idx (snd (run_actions h t)) = idx t"
  by (induction h t rule: run_actions.induct) (simp_all add: pushToQueue_if abort_def)

lemma run_actions_cur [simp]: "cur (snd (run_actions h t)) = cur t"
  by (induction h t rule: run_actions.induct) (simp_all add: pushToQueue_if abort_def)

lemma run_actions_inflight [simp]: "inflight (snd (run_actions h t)) = inflight t"
  by (induction h t rule: run_actions.induct) (simp_all add: pushToQueue_if abort_def)

lemma run_actions_session [simp]: "session (snd (run_actions h t)) = session t"
  by (induction h t rule: run_actions.induct) (simp_all add: pushToQueue_if abort_def)

lemma run_actions_running [simp]: "running (snd (run_actions h t)) = running t"
  by (induction h t rule: run_actions.induct) (simp_all add: pushToQueue_if abort_def)

lemma run_actions_results [simp]: "results (snd (run_actions h t)) = results t"
  by (induction h t rule: run_actions.induct) (simp_all add: pushToQueue_if abort_def)

lemma run_actions_tx_error [simp]: "tx_error (snd (run_actions h t)) = tx_error t"
  by (induction h t rule: run_actions.induct) (simp_all add: pushToQueue_if abort_def)

lemma run_actions_tx_onerror [simp]: "tx_onerror (snd (run_actions h t)) = tx_onerror t"
  by (induction h t rule: run_actions.induct) (simp_all add: pushToQueue_if abort_def)

lemma run_actions_db_onerror [simp]: "db_onerror (snd (run_actions h t)) = db_onerror t"
  by (induction h t rule: run_actions.induct) (simp_all add: pushToQueue_if abort_def)

lemma run_actions_oncomplete [simp]: "oncomplete (snd (run_actions h t)) = oncomplete t"
  by (induction h t rule: run_actions.induct) (simp_all add: pushToQueue_if abort_def)

lemma run_actions_onabort [simp]: "onabort (snd (run_actions h t)) = onabort t"
  by (induction h t rule: run_actions.induct) (simp_all add: pushToQueue_if abort_def)

lemma run_actions_active: "active (snd (run_actions h t)) \<Longrightarrow> active t"
proof (induction h t rule: run_actions.induct)
  case (2 f hs he as t)
  show ?case
  proof (cases "active t")
    case False
    with 2(2) show ?thesis by (simp add: pushToQueue_if)
  qed
next
  case (3 as t)
  then have "active (abort (t\<lparr> abort_calls := Suc (abort_calls t) \<rparr>))" by simp
  then show ?case by (simp add: abort_def)
qed simp_all

text \<open>A handler only appends to the queue.\<close>

lemma run_actions_keeps:
  "i < length (requests t) \<Longrightarrow>
   i < length (requests (snd (run_actions h t))) \<and>
   requests (snd (run_actions h t)) ! i = requests t ! i"
  by (induction h t rule: run_actions.induct)
     (simp_all add: pushToQueue_if abort_def nth_append)

lemma queue_ok_push:
  assumes "queue_ok t" and "active t"
  shows "queue_ok (t\<lparr> requests := requests t @
                       [\<lparr> rid = created t, op = f, onsuccess = hs, onerror = he \<rparr>],
                     created := Suc (created t) \<rparr>)"
  using assms by (simp add: queue_ok_def list_all_iff nth_append)

lemma queue_ok_abort: "queue_ok t \<Longrightarrow> queue_ok (abort t)"
  by (simp add: queue_ok_def abort_def)

lemma run_actions_queue_ok: "queue_ok t \<Longrightarrow> queue_ok (snd (run_actions h t))"
proof (induction h t rule: run_actions.induct)
  case (2 f hs he as t)
  show ?case
  proof (cases "active t")
    case True
    with 2 queue_ok_push[of t f hs he] show ?thesis by (simp add: pushToQueue_if)
  next
    case False
    with 2(2) show ?thesis by (simp add: pushToQueue_if)
  qed
next
  case (3 as t)
  from 3(2) have "queue_ok (t\<lparr> abort_calls := Suc (abort_calls t) \<rparr>)"
    by (simp add: queue_ok_def)
  from 3(1)[OF queue_ok_abort[OF this]] show ?case by simp
qed simp_all

lemma run_actions_requests:
  "length (requests t) \<le> length (requests (snd (run_actions h t))) \<and>
   take (length (requests t)) (requests (snd (run_actions h t))) = requests t"
proof (induction h t rule: run_actions.induct)
  case (2 f hs he as t)
  show ?case
  proof (cases "active t")
    case True
    let ?t1 = "t\<lparr> requests := requests t @
                       [\<lparr> rid = created t, op = f, onsuccess = hs, onerror = he \<rparr>],
                     created := Suc (created t) \<rparr>"
    from True 2(1)[of None ?t1]
    have ih: "length (requests ?t1) \<le> length (requests (snd (run_actions as ?t1)))"
      "take (length (requests ?t1)) (requests (snd (run_actions as ?t1))) = requests ?t1"
      by (simp_all add: pushToQueue_if)
    have r: "run_actions (Enqueue f hs he # as) t = run_actions as ?t1"
      using True by (simp add: pushToQueue_if)
    from ih(1) have l: "length (requests t) \<le> length (requests (snd (run_actions as ?t1)))" by simp
    have "take (length (requests t)) (requests (snd (run_actions as ?t1)))
          = take (length (requests t)) (take (length (requests ?t1)) (requests (snd (run_actions as ?t1))))"
      by (simp add: min_def)
    also have "\<dots> = requests t" by (simp only: ih(2)) simp
    finally show ?thesis using l r by simp
  next
    case False
    then show ?thesis by (simp add: pushToQueue_if)
  qed
next
  case (3 as t)
  then show ?case by (simp add: abort_def)
qed simp_all

lemma frame_refl: "frame t t"
  by (simp add: frame_def)

lemma frame_trans: "frame t t1 \<Longrightarrow> frame t1 t2 \<Longrightarrow> frame t t2"
proof -
  assume a: "frame t t1" and b: "frame t1 t2"
  have l: "length (requests t) \<le> length (requests t2)"
    using a b by (simp add: frame_def)
  have "take (length (requests t)) (requests t2)
        = take (length (requests t)) (take (length (requests t1)) (requests t2))"
    using a by (simp add: frame_def min_def)
  also have "\<dots> = requests t" using a b by (simp add: frame_def)
  finally have tk: "take (length (requests t)) (requests t2) = requests t" .
  show ?thesis using a b l tk by (simp add: frame_def)
qed

lemma frame_run_actions: "frame t (snd (run_actions h t))"
  using run_actions_requests[of t h] run_actions_queue_ok[of t h] run_actions_active[of h t]
  by (simp add: frame_def)

lemma frame_abort: "frame t (abort t)"
  using queue_ok_abort[of t] by (simp add: frame_def) (simp add: abort_def)

lemma frame_event: "\<not> is_op ev \<Longrightarrow> frame t (t\<lparr> trace := trace t @ [ev] \<rparr>)"
  by (simp add: frame_def ops_def queue_ok_def)

lemma frame_callback: "\<not> is_op ev \<Longrightarrow> frame t (snd (callback ev h t))"
  unfolding callback_def
  by (rule frame_trans[OF frame_event frame_run_actions])

lemma frame_errored: "frame t (t\<lparr> errored := True \<rparr>)"
  by (simp add: frame_def queue_ok_def)

lemma frame_tx_error: "frame t (t\<lparr> tx_error := x \<rparr>)"
  by (simp add: frame_def queue_ok_def)

text \<open>On an inactive transaction a handler cannot queue anything.\<close>

lemma run_actions_inactive:
  "\<not> active t \<Longrightarrow>
   requests (snd (run_actions h t)) = requests t \<and> \<not> active (snd (run_actions h t))"
proof (induction h t rule: run_actions.induct)
  case (3 as t)
  have "\<not> active (abort (t\<lparr> abort_calls := Suc (abort_calls t) \<rparr>))" by (simp add: abort_def)
  from 3(1)[OF this] show ?case by (simp add: abort_def)
qed (simp_all add: pushToQueue_if)

subsection \<open>The transaction-level notifications\<close>

lemma transactionError_errored: "errored t \<Longrightarrow> transactionError e t = (None, t)"
  by (simp add: transactionError_def)

lemma transactionError_inactive:
  "\<not> errored t \<Longrightarrow> \<not> active t \<Longrightarrow> transactionError e t = (Some e, t\<lparr> errored := True \<rparr>)"
  by (simp add: transactionError_def)

text \<open>The two \<open>onerror\<close> notifications of \<open>transactionError\<close>, before its \<open>finally\<close>.\<close>

lemma transactionError_active:
  assumes "\<not> errored t" and "active t"
  shows "transactionError e t =
     (let t2 = t\<lparr> errored := True, tx_error := Some e \<rparr>;
          c1 = callback (TxOnError e) (tx_onerror t) t2
      in if fst c1 \<noteq> None then (fst c1, abort (snd c1))
         else (fst (callback (DbOnError e) (db_onerror t) (snd c1)),
               abort (snd (callback (DbOnError e) (db_onerror t) (snd c1)))))"
proof -
  let ?t2 = "t\<lparr> errored := True, tx_error := Some e \<rparr>"
  obtain x t3 where c1: "callback (TxOnError e) (tx_onerror t) ?t2 = (x, t3)"
    by (cases "callback (TxOnError e) (tx_onerror t) ?t2")
  have h: "db_onerror t3 = db_onerror t"
    using c1 run_actions_db_onerror[of "tx_onerror t" "?t2\<lparr> trace := trace ?t2 @ [TxOnError e] \<rparr>"]
    by (simp add: callback_def)
  show ?thesis
  proof (cases x)
    case None
    obtain y t4 where c2: "callback (DbOnError e) (db_onerror t) t3 = (y, t4)"
      by (cases "callback (DbOnError e) (db_onerror t) t3")
    show ?thesis using assms c1 None c2 h
      by (simp add: transactionError_def Let_def)
  next
    case (Some a)
    then show ?thesis using assms c1
      by (simp add: transactionError_def Let_def)
  qed
qed

lemma frame_transactionError: "frame t (snd (transactionError e t))"
proof (cases "errored t")
  case True
  then show ?thesis by (simp add: transactionError_errored frame_refl)
next
  case ne: False
  show ?thesis
  proof (cases "active t")
    case False
    with ne show ?thesis by (simp add: transactionError_inactive frame_errored)
  next
    case True
    let ?t2 = "t\<lparr> errored := True, tx_error := Some e \<rparr>"
    let ?c1 = "callback (TxOnError e) (tx_onerror t) ?t2"
    let ?c2 = "callback (DbOnError e) (db_onerror t) (snd ?c1)"
    have f2: "frame t ?t2"
      using frame_trans[OF frame_errored[of t] frame_tx_error[of "t\<lparr> errored := True \<rparr>" "Some e"]]
      by simp
    have f3: "frame t (snd ?c1)"
      by (rule frame_trans[OF f2 frame_callback]) simp
    have f4: "frame t (snd ?c2)"
      by (rule frame_trans[OF f3 frame_callback]) simp
    have "frame t (abort (snd ?c1))" by (rule frame_trans[OF f3 frame_abort])
    moreover have "frame t (abort (snd ?c2))" by (rule frame_trans[OF f4 frame_abort])
    ultimately show ?thesis
      using ne True by (simp add: transactionError_active Let_def)
  qed
qed

lemma transactionError_sets_errored: "errored (snd (transactionError e t))"
proof (cases "errored t")
  case True
  then show ?thesis by (simp add: transactionError_errored)
next
  case ne: False
  show ?thesis
  proof (cases "active t")
    case False
    with ne show ?thesis by (simp add: transactionError_inactive)
  next
    case True
    then show ?thesis using ne
      by (simp add: transactionError_active Let_def callback_def abort_def)
  qed
qed

lemma frame_transactionFinished: "frame t (snd (transactionFinished t))"
proof -
  obtain x t1 where c: "callback OnComplete (oncomplete t) t = (x, t1)"
    by (cases "callback OnComplete (oncomplete t) t")
  have "frame t (snd (callback OnComplete (oncomplete t) t))" by (rule frame_callback) simp
  with c have f1: "frame t t1" by simp
  show ?thesis
  proof (cases x)
    case None
    have "frame t1 (t1\<lparr> trace := trace t1 @ [OnCompleteInternal] \<rparr>)"
      by (rule frame_event) simp
    with f1 have "frame t (t1\<lparr> trace := trace t1 @ [OnCompleteInternal] \<rparr>)"
      by (rule frame_trans)
    with None c show ?thesis by (simp add: transactionFinished_def)
  next
    case (Some a)
    have "frame t (t1\<lparr> errored := True \<rparr>)"
      by (rule frame_trans[OF f1 frame_errored])
    with Some c show ?thesis by (simp add: transactionFinished_def)
  qed
qed

lemma transactionFinished_closed:
  assumes "\<not> active t"
  shows "requests (snd (transactionFinished t)) = requests t \<and>
         \<not> active (snd (transactionFinished t))"
proof -
  let ?u = "t\<lparr> trace := trace t @ [OnComplete] \<rparr>"
  obtain x t1 where c: "run_actions (oncomplete t) ?u = (x, t1)"
    by (cases "run_actions (oncomplete t) ?u")
  from run_actions_inactive[of ?u "oncomplete t"] assms c
  have "requests t1 = requests t \<and> \<not> active t1" by simp
  with c show ?thesis
    by (cases x) (simp_all add: transactionFinished_def callback_def)
qed

subsection \<open>Reading the order off a trace\<close>

lemma in_order_append:
  "in_order s (xs @ ys) = (case in_order s xs of None \<Rightarrow> None | Some s' \<Rightarrow> in_order s' ys)"
  by (induction xs arbitrary: s) (simp_all split: option.splits)

lemma op_step_other: "\<not> is_op ev \<Longrightarrow> op_step s ev = Some s"
  by (cases s; cases ev) simp_all

lemma in_order_ops: "in_order s (ops tr) = in_order s tr"
  by (induction tr arbitrary: s) (auto simp: ops_def op_step_other split: option.splits)

lemma frame_in_order: "frame t t' \<Longrightarrow> in_order s (trace t') = in_order s (trace t)"
  using in_order_ops[of s "trace t'"] in_order_ops[of s "trace t"]
  by (simp add: frame_def)

subsection \<open>The continuation \<open>error\<close>\<close>

lemma error_unfold:
  "cur t = Some q \<Longrightarrow>
   snd (error e t) =
     snd (transactionError e
       (snd (run_actions (onerror q)
          (t\<lparr> results := (results t)(rid q \<mapsto> Failed e),
              trace := trace t @ [OnError (rid q) e] \<rparr>))))"
  by (simp add: error_def try_finally_def fire_request_error_def callback_def
      split: prod.splits)

lemma error_frame:
  assumes "cur t = Some q"
  shows "frame (t\<lparr> results := (results t)(rid q \<mapsto> Failed e),
                   trace := trace t @ [OnError (rid q) e] \<rparr>) (snd (error e t))"
  unfolding error_unfold[OF assms]
  by (rule frame_trans[OF frame_run_actions frame_transactionError])

lemma snd_try_finally: "snd (try_finally body fin t) = snd (fin (snd (body t)))"
  by (simp add: try_finally_def split: prod.splits)

lemma error_errored: "errored (snd (error e t))"
  by (simp add: error_def snd_try_finally transactionError_sets_errored)

lemma queue_ok_cong:
  "requests t' = requests t \<Longrightarrow> active t' = active t \<Longrightarrow> created t' = created t \<Longrightarrow>
   queue_ok t' = queue_ok t"
  by (simp add: queue_ok_def)

text \<open>
  \<open>error\<close>, called for the operation in flight or once more for the operation it has
  just resolved, leaves the trace in order with that operation resolved.
\<close>

lemma error_order:
  assumes c: "cur t = Some q"
    and o: "in_order s0 (trace t) = Some (rid q, True) \<or>
            in_order s0 (trace t) = Some (Suc (rid q), False)"
  shows "in_order s0 (trace (snd (error e t))) = Some (Suc (rid q), False)"
proof -
  let ?b = "t\<lparr> results := (results t)(rid q \<mapsto> Failed e),
               trace := trace t @ [OnError (rid q) e] \<rparr>"
  have "in_order s0 (trace (snd (error e t))) = in_order s0 (trace ?b)"
    by (rule frame_in_order[OF error_frame[OF c]])
  also have "\<dots> = Some (Suc (rid q), False)"
    using o by (auto simp: in_order_append)
  finally show ?thesis .
qed

lemma error_keeps:
  assumes c: "cur t = Some q"
  shows "cur (snd (error e t)) = Some q \<and> idx (snd (error e t)) = idx t \<and>
         inflight (snd (error e t)) = inflight t \<and> session (snd (error e t)) = session t \<and>
         running (snd (error e t)) = running t \<and>
         (queue_ok t \<longrightarrow> queue_ok (snd (error e t)))"
proof -
  let ?b = "t\<lparr> results := (results t)(rid q \<mapsto> Failed e),
               trace := trace t @ [OnError (rid q) e] \<rparr>"
  have q: "queue_ok ?b = queue_ok t" by (rule queue_ok_cong) simp_all
  show ?thesis using error_frame[OF c, of e] c q by (simp add: frame_def)
qed

subsection \<open>\<open>executeNextRequest\<close>\<close>

lemma executeNextRequest_drained:
  "length (requests t) \<le> idx t \<Longrightarrow>
   executeNextRequest beh t =
     (if active t then transactionFinished (t\<lparr> requests := [], active := False \<rparr>)
      else (None, t\<lparr> requests := [] \<rparr>))"
  by (simp add: executeNextRequest_def Let_def)

lemma executeNextRequest_calls:
  "idx t < length (requests t) \<Longrightarrow> beh (op (requests t ! idx t)) = CallsBackend \<Longrightarrow>
   executeNextRequest beh t =
     (None, t\<lparr> cur := Some (requests t ! idx t),
               trace := trace t @ [OpBegin (rid (requests t ! idx t))],
               inflight := True \<rparr>)"
  by (simp add: executeNextRequest_def start_op_def Let_def)

lemma executeNextRequest_throws:
  "idx t < length (requests t) \<Longrightarrow> beh (op (requests t ! idx t)) = ThrowsSync e \<Longrightarrow>
   executeNextRequest beh t =
     error e (t\<lparr> cur := Some (requests t ! idx t),
                 trace := trace t @ [OpBegin (rid (requests t ! idx t))] \<rparr>)"
  by (simp add: executeNextRequest_def start_op_def Let_def)

lemma executeNextRequest_fails:
  "idx t < length (requests t) \<Longrightarrow> beh (op (requests t ! idx t)) = FailsSync e \<Longrightarrow>
   executeNextRequest beh t =
     (case error e (t\<lparr> cur := Some (requests t ! idx t),
                       trace := trace t @ [OpBegin (rid (requests t ! idx t))] \<rparr>) of
        (Some e', t') \<Rightarrow> error e' t'
      | (None, t') \<Rightarrow> (None, t'))"
  by (simp add: executeNextRequest_def start_op_def Let_def)

lemma queue_ok_rid: "queue_ok t \<Longrightarrow> i < length (requests t) \<Longrightarrow> rid (requests t ! i) = i"
  by (simp add: queue_ok_def list_all_iff)

lemma sched_ok_idle:
  "queue_ok t \<Longrightarrow> \<not> inflight t \<Longrightarrow> in_order (0, False) (trace t) = Some (k, False) \<Longrightarrow>
   sched_ok t"
  by (auto simp: sched_ok_def)

lemma executeNextRequest_ok:
  assumes q: "queue_ok t" and nf: "\<not> inflight t"
    and o: "in_order (0, False) (trace t) = Some (idx t, False)"
  shows "sched_ok (snd (executeNextRequest beh t)) \<and>
         session (snd (executeNextRequest beh t)) = session t \<and>
         running (snd (executeNextRequest beh t)) = running t"
proof (cases "length (requests t) \<le> idx t")
  case True
  show ?thesis
  proof (cases "active t")
    case act: True
    let ?u = "t\<lparr> requests := [], active := False \<rparr>"
    have f: "frame ?u (snd (transactionFinished ?u))" by (rule frame_transactionFinished)
    have qu: "queue_ok ?u" by (simp add: queue_ok_def)
    from f qu have 1: "queue_ok (snd (transactionFinished ?u))" by (simp add: frame_def)
    from f nf have 2: "\<not> inflight (snd (transactionFinished ?u))" by (simp add: frame_def)
    from frame_in_order[OF f, of "(0, False)"] o
    have 3: "in_order (0, False) (trace (snd (transactionFinished ?u))) = Some (idx t, False)"
      by simp
    from f have 4: "session (snd (transactionFinished ?u)) = session t"
      "running (snd (transactionFinished ?u)) = running t" by (simp_all add: frame_def)
    show ?thesis
      using True act sched_ok_idle[OF 1 2 3] 4 by (simp add: executeNextRequest_drained)
  next
    case False
    have "queue_ok (t\<lparr> requests := [] \<rparr>)" using False by (simp add: queue_ok_def)
    then have "sched_ok (t\<lparr> requests := [] \<rparr>)"
      using nf o by (intro sched_ok_idle[where k = "idx t"]) simp_all
    then show ?thesis using True False by (simp add: executeNextRequest_drained)
  qed
next
  case False
  then have lt: "idx t < length (requests t)" by simp
  let ?q = "requests t ! idx t"
  have r: "rid ?q = idx t" by (rule queue_ok_rid[OF q lt])
  let ?u = "t\<lparr> cur := Some ?q, trace := trace t @ [OpBegin (rid ?q)] \<rparr>"
  have cu: "cur ?u = Some ?q" by simp
  have ou: "in_order (0, False) (trace ?u) = Some (rid ?q, True)"
    using o r by (simp add: in_order_append)
  have qu: "queue_ok ?u" using q by (simp add: queue_ok_def)
  have nfu: "\<not> inflight ?u" using nf by simp
  show ?thesis
  proof (cases "beh (op ?q)")
    case CallsBackend
    let ?v = "t\<lparr> cur := Some ?q, trace := trace t @ [OpBegin (rid ?q)], inflight := True \<rparr>"
    have "queue_ok ?v" using q by (simp add: queue_ok_def)
    moreover have "in_order (0, False) (trace ?v) = Some (idx t, inflight ?v)"
      using o r by (simp add: in_order_append)
    ultimately have "sched_ok ?v" using lt by (simp add: sched_ok_def)
    then show ?thesis using lt CallsBackend by (simp add: executeNextRequest_calls)
  next
    case (ThrowsSync e)
    have 1: "queue_ok (snd (error e ?u))" using error_keeps[OF cu, of e] qu by simp
    have 2: "\<not> inflight (snd (error e ?u))" using error_keeps[OF cu, of e] nfu by simp
    have 3: "in_order (0, False) (trace (snd (error e ?u))) = Some (Suc (rid ?q), False)"
      using error_order[OF cu, of "(0, False)" e] ou by simp
    have 4: "session (snd (error e ?u)) = session t" "running (snd (error e ?u)) = running t"
      using error_keeps[OF cu, of e] by simp_all
    show ?thesis
      using lt ThrowsSync sched_ok_idle[OF 1 2 3] 4 by (simp add: executeNextRequest_throws)
  next
    case (FailsSync e)
    obtain x t2 where e1: "error e ?u = (x, t2)" by (cases "error e ?u")
    have k1: "cur t2 = Some ?q" "queue_ok t2" "\<not> inflight t2"
      "session t2 = session t" "running t2 = running t"
      using error_keeps[OF cu, of e] qu nfu e1 by simp_all
    have o1: "in_order (0, False) (trace t2) = Some (Suc (rid ?q), False)"
      using error_order[OF cu, of "(0, False)" e] ou e1 by simp
    show ?thesis
    proof (cases x)
      case None
      show ?thesis
        using lt FailsSync e1 None sched_ok_idle[OF k1(2) k1(3) o1] k1(4,5)
        by (simp add: executeNextRequest_fails)
    next
      case (Some e')
      have 1: "queue_ok (snd (error e' t2))" using error_keeps[OF k1(1), of e'] k1(2) by simp
      have 2: "\<not> inflight (snd (error e' t2))" using error_keeps[OF k1(1), of e'] k1(3) by simp
      have 3: "in_order (0, False) (trace (snd (error e' t2))) = Some (Suc (rid ?q), False)"
        using error_order[OF k1(1), of "(0, False)" e'] o1 by simp
      have 4: "session (snd (error e' t2)) = session t" "running (snd (error e' t2)) = running t"
        using error_keeps[OF k1(1), of e'] k1(4,5) by simp_all
      show ?thesis
        using lt FailsSync e1 Some sched_ok_idle[OF 1 2 3] 4
        by (simp add: executeNextRequest_fails)
    qed
  qed
qed

text \<open>When \<open>executeNextRequest\<close> throws, it leaves a state in which a continuation may be
  called again.\<close>

lemma executeNextRequest_retry:
  assumes q: "queue_ok t" and nf: "\<not> inflight t"
    and o: "in_order (0, False) (trace t) = Some (idx t, False)"
    and c: "cur t = Some q0" and i: "idx t = Suc (rid q0)"
    and x: "fst (executeNextRequest beh t) \<noteq> None"
  shows "retry_ok (snd (executeNextRequest beh t))"
proof (cases "length (requests t) \<le> idx t")
  case True
  show ?thesis
  proof (cases "active t")
    case act: True
    let ?u = "t\<lparr> requests := [], active := False \<rparr>"
    let ?t' = "snd (transactionFinished ?u)"
    have f: "frame ?u ?t'" by (rule frame_transactionFinished)
    have qu: "queue_ok ?u" by (simp add: queue_ok_def)
    from f qu have 1: "queue_ok ?t'" by (simp add: frame_def)
    from f nf have 2: "\<not> inflight ?t'" by (simp add: frame_def)
    from frame_in_order[OF f, of "(0, False)"] o i
    have 3: "in_order (0, False) (trace ?t') = Some (Suc (rid q0), False)" by simp
    from f c have 4: "cur ?t' = Some q0" by (simp add: frame_def)
    from transactionFinished_closed[of ?u]
    have 5: "requests ?t' = []" "\<not> active ?t'" by simp_all
    have "retry_ok ?t'" using 1 2 3 4 5 by (simp add: retry_ok_def)
    with True act show ?thesis by (simp add: executeNextRequest_drained)
  next
    case False
    with True x show ?thesis by (simp add: executeNextRequest_drained)
  qed
next
  case False
  then have lt: "idx t < length (requests t)" by simp
  let ?q = "requests t ! idx t"
  have r: "rid ?q = idx t" by (rule queue_ok_rid[OF q lt])
  let ?u = "t\<lparr> cur := Some ?q, trace := trace t @ [OpBegin (rid ?q)] \<rparr>"
  have cu: "cur ?u = Some ?q" by simp
  have ou: "in_order (0, False) (trace ?u) = Some (rid ?q, True)"
    using o r by (simp add: in_order_append)
  have qu: "queue_ok ?u" using q by (simp add: queue_ok_def)
  have nfu: "\<not> inflight ?u" using nf by simp
  have after: "\<And>e w. cur w = Some ?q \<Longrightarrow> queue_ok w \<Longrightarrow> \<not> inflight w \<Longrightarrow> idx w = idx t \<Longrightarrow>
      in_order (0, False) (trace w) = Some (rid ?q, True) \<or>
      in_order (0, False) (trace w) = Some (Suc (rid ?q), False) \<Longrightarrow>
      retry_ok (snd (error e w))"
  proof -
    fix e w
    assume w: "cur w = Some ?q" "queue_ok w" "\<not> inflight w" "idx w = idx t"
      "in_order (0, False) (trace w) = Some (rid ?q, True) \<or>
       in_order (0, False) (trace w) = Some (Suc (rid ?q), False)"
    from error_keeps[OF w(1), of e] w r error_order[OF w(1) w(5), of e]
    show "retry_ok (snd (error e w))" by (simp add: retry_ok_def)
  qed
  show ?thesis
  proof (cases "beh (op ?q)")
    case CallsBackend
    with lt x show ?thesis by (simp add: executeNextRequest_calls)
  next
    case (ThrowsSync e)
    have "in_order (0, False) (trace ?u) = Some (rid ?q, True) \<or>
          in_order (0, False) (trace ?u) = Some (Suc (rid ?q), False)"
      using ou by blast
    from after[OF cu qu nfu _ this, of e] have "retry_ok (snd (error e ?u))" by simp
    with lt ThrowsSync show ?thesis by (simp add: executeNextRequest_throws)
  next
    case (FailsSync e)
    obtain y t2 where e1: "error e ?u = (y, t2)" by (cases "error e ?u")
    have k1: "cur t2 = Some ?q" "queue_ok t2" "\<not> inflight t2" "idx t2 = idx t"
      using error_keeps[OF cu, of e] qu nfu e1 by simp_all
    have o1: "in_order (0, False) (trace t2) = Some (Suc (rid ?q), False)"
      using error_order[OF cu, of "(0, False)" e] ou e1 by simp
    show ?thesis
    proof (cases y)
      case None
      with lt FailsSync e1 x show ?thesis by (simp add: executeNextRequest_fails)
    next
      case (Some e')
      have "in_order (0, False) (trace t2) = Some (rid ?q, True) \<or>
            in_order (0, False) (trace t2) = Some (Suc (rid ?q), False)"
        using o1 by blast
      from after[OF k1 this, of e'] have "retry_ok (snd (error e' t2))" .
      with lt FailsSync e1 Some show ?thesis by (simp add: executeNextRequest_fails)
    qed
  qed
qed

subsection \<open>The continuation \<open>success\<close>\<close>

lemma success_unfold:
  "cur t = Some q \<Longrightarrow>
   success beh v t =
     (case run_actions (onsuccess q)
             (t\<lparr> results := (results t)(rid q \<mapsto> Succeeded v),
                 trace := trace t @ [OnSuccess (rid q) v] \<rparr>) of
        (Some e, t') \<Rightarrow> (Some e, t')
      | (None, t') \<Rightarrow> executeNextRequest beh (t'\<lparr> idx := Suc (idx t') \<rparr>))"
  by (simp add: success_def callback_def)

lemma success_ok:
  assumes c: "cur t = Some q" and r: "rid q = idx t" and q: "queue_ok t"
    and nf: "\<not> inflight t" and o: "in_order (0, False) (trace t) = Some (idx t, True)"
  shows "sched_ok (snd (success beh v t)) \<and>
         session (snd (success beh v t)) = session t \<and>
         running (snd (success beh v t)) = running t"
proof -
  let ?u = "t\<lparr> results := (results t)(rid q \<mapsto> Succeeded v),
               trace := trace t @ [OnSuccess (rid q) v] \<rparr>"
  obtain x t2 where ra: "run_actions (onsuccess q) ?u = (x, t2)"
    by (cases "run_actions (onsuccess q) ?u")
  have f: "frame ?u t2" using frame_run_actions[of ?u "onsuccess q"] ra by simp
  have qu: "queue_ok ?u" using q by (simp add: queue_ok_def)
  have ou: "in_order (0, False) (trace ?u) = Some (Suc (idx t), False)"
    using o r by (simp add: in_order_append)
  from f qu have q2: "queue_ok t2" by (simp add: frame_def)
  from f nf have nf2: "\<not> inflight t2" by (simp add: frame_def)
  from frame_in_order[OF f, of "(0, False)"] ou
  have o2: "in_order (0, False) (trace t2) = Some (Suc (idx t), False)" by simp
  from f have k2: "idx t2 = idx t" "session t2 = session t" "running t2 = running t"
    by (simp_all add: frame_def)
  show ?thesis
  proof (cases x)
    case (Some e)
    then show ?thesis
      using c ra sched_ok_idle[OF q2 nf2 o2] k2 by (simp add: success_unfold)
  next
    case None
    let ?w = "t2\<lparr> idx := Suc (idx t2) \<rparr>"
    have qw: "queue_ok ?w" using q2 by (simp add: queue_ok_def)
    have nfw: "\<not> inflight ?w" using nf2 by simp
    have ow: "in_order (0, False) (trace ?w) = Some (idx ?w, False)" using o2 k2 by simp
    from executeNextRequest_ok[OF qw nfw ow, of beh] k2
    show ?thesis using c ra None by (simp add: success_unfold)
  qed
qed

lemma success_retry:
  assumes c: "cur t = Some q" and r: "rid q = idx t" and q: "queue_ok t"
    and nf: "\<not> inflight t" and o: "in_order (0, False) (trace t) = Some (idx t, True)"
    and x: "fst (success beh v t) \<noteq> None"
  shows "retry_ok (snd (success beh v t))"
proof -
  let ?u = "t\<lparr> results := (results t)(rid q \<mapsto> Succeeded v),
               trace := trace t @ [OnSuccess (rid q) v] \<rparr>"
  obtain y t2 where ra: "run_actions (onsuccess q) ?u = (y, t2)"
    by (cases "run_actions (onsuccess q) ?u")
  have f: "frame ?u t2" using frame_run_actions[of ?u "onsuccess q"] ra by simp
  have qu: "queue_ok ?u" using q by (simp add: queue_ok_def)
  have ou: "in_order (0, False) (trace ?u) = Some (Suc (idx t), False)"
    using o r by (simp add: in_order_append)
  from f qu have q2: "queue_ok t2" by (simp add: frame_def)
  from f nf have nf2: "\<not> inflight t2" by (simp add: frame_def)
  from frame_in_order[OF f, of "(0, False)"] ou
  have o2: "in_order (0, False) (trace t2) = Some (Suc (idx t), False)" by simp
  from f c have k2: "idx t2 = idx t" "cur t2 = Some q" by (simp_all add: frame_def)
  show ?thesis
  proof (cases y)
    case (Some e)
    have "retry_ok t2" using q2 nf2 o2 k2 r by (simp add: retry_ok_def)
    with c ra Some show ?thesis by (simp add: success_unfold)
  next
    case None
    let ?w = "t2\<lparr> idx := Suc (idx t2) \<rparr>"
    have qw: "queue_ok ?w" using q2 by (simp add: queue_ok_def)
    have nfw: "\<not> inflight ?w" using nf2 by simp
    have ow: "in_order (0, False) (trace ?w) = Some (idx ?w, False)" using o2 k2 by simp
    have cw: "cur ?w = Some q" using k2 by simp
    have iw: "idx ?w = Suc (rid q)" using k2 r by simp
    have xw: "fst (executeNextRequest beh ?w) \<noteq> None"
      using x c ra None by (simp add: success_unfold)
    from executeNextRequest_retry[OF qw nfw ow cw iw xw]
    show ?thesis using c ra None by (simp add: success_unfold)
  qed
qed

text \<open>The continuation \<open>success\<close>, called again after it has thrown.\<close>

lemma success_again:
  assumes r: "retry_ok t"
  shows "sched_ok (snd (success beh v t)) \<and>
         session (snd (success beh v t)) = session t \<and>
         running (snd (success beh v t)) = running t"
proof -
  from r obtain q where c: "cur t = Some q"
    and o: "in_order (0, False) (trace t) = Some (Suc (rid q), False)"
    and d: "idx t = rid q \<or> (requests t = [] \<and> \<not> active t)"
    and qt: "queue_ok t" and nf: "\<not> inflight t"
    by (auto simp: retry_ok_def split: option.splits)
  let ?u = "t\<lparr> results := (results t)(rid q \<mapsto> Succeeded v),
               trace := trace t @ [OnSuccess (rid q) v] \<rparr>"
  obtain y t2 where ra: "run_actions (onsuccess q) ?u = (y, t2)"
    by (cases "run_actions (onsuccess q) ?u")
  have f: "frame ?u t2" using frame_run_actions[of ?u "onsuccess q"] ra by simp
  have qu: "queue_ok ?u" using qt by (simp add: queue_ok_def)
  have ou: "in_order (0, False) (trace ?u) = Some (Suc (rid q), False)"
    using o by (simp add: in_order_append)
  from f qu have q2: "queue_ok t2" by (simp add: frame_def)
  from f nf have nf2: "\<not> inflight t2" by (simp add: frame_def)
  from frame_in_order[OF f, of "(0, False)"] ou
  have o2: "in_order (0, False) (trace t2) = Some (Suc (rid q), False)" by simp
  from f have k2: "idx t2 = idx t" "session t2 = session t" "running t2 = running t"
    by (simp_all add: frame_def)
  show ?thesis
  proof (cases y)
    case (Some e)
    then show ?thesis
      using c ra sched_ok_idle[OF q2 nf2 o2] k2 by (simp add: success_unfold)
  next
    case None
    let ?w = "t2\<lparr> idx := Suc (idx t2) \<rparr>"
    have qw: "queue_ok ?w" using q2 by (simp add: queue_ok_def)
    have nfw: "\<not> inflight ?w" using nf2 by simp
    from d show ?thesis
    proof
      assume "idx t = rid q"
      then have ow: "in_order (0, False) (trace ?w) = Some (idx ?w, False)"
        using o2 k2 by simp
      from executeNextRequest_ok[OF qw nfw ow, of beh] k2
      show ?thesis using c ra None by (simp add: success_unfold)
    next
      assume cl: "requests t = [] \<and> \<not> active t"
      then have "\<not> active ?u" "requests ?u = []" by simp_all
      with run_actions_inactive[of ?u "onsuccess q"] ra
      have e2: "requests t2 = []" "\<not> active t2" by simp_all
      then have en: "executeNextRequest beh ?w = (None, ?w\<lparr> requests := [] \<rparr>)"
        by (simp add: executeNextRequest_drained)
      have "queue_ok (?w\<lparr> requests := [] \<rparr>)" using e2 by (simp add: queue_ok_def)
      then have "sched_ok (?w\<lparr> requests := [] \<rparr>)"
        using nf2 o2 by (intro sched_ok_idle[where k = "Suc (rid q)"]) simp_all
      then show ?thesis using c ra None en k2 by (simp add: success_unfold)
    qed
  qed
qed

subsection \<open>The invariant holds after every turn\<close>

lemma take_nth_eq:
  "take n ys = xs \<Longrightarrow> i < length xs \<Longrightarrow> ys ! i = xs ! i"
  by (metis nth_take length_take min_less_iff_conj)

lemma sched_ok_frame:
  assumes s: "sched_ok t" and f: "frame t t'"
  shows "sched_ok t'"
proof -
  from s obtain k where k: "in_order (0, False) (trace t) = Some (k, inflight t)"
    and b: "inflight t \<longrightarrow> k = idx t \<and> idx t < length (requests t) \<and>
                              cur t = Some (requests t ! idx t)"
    and q: "queue_ok t"
    by (auto simp: sched_ok_def)
  from f q have q': "queue_ok t'" by (simp add: frame_def)
  from f have fl: "inflight t' = inflight t" "idx t' = idx t" "cur t' = cur t"
    "length (requests t) \<le> length (requests t')"
    "take (length (requests t)) (requests t') = requests t"
    by (simp_all add: frame_def)
  have k': "in_order (0, False) (trace t') = Some (k, inflight t')"
    using frame_in_order[OF f, of "(0, False)"] k fl(1) by simp
  have b': "inflight t' \<longrightarrow> k = idx t' \<and> idx t' < length (requests t') \<and>
                              cur t' = Some (requests t' ! idx t')"
  proof
    assume "inflight t'"
    with fl(1) b have 1: "k = idx t" "idx t < length (requests t)"
      "cur t = Some (requests t ! idx t)" by simp_all
    have "requests t' ! idx t = requests t ! idx t"
      by (rule take_nth_eq[OF fl(5) 1(2)])
    with 1 fl show "k = idx t' \<and> idx t' < length (requests t') \<and>
                    cur t' = Some (requests t' ! idx t')" by simp
  qed
  show ?thesis using q' k' b' by (auto simp: sched_ok_def)
qed

lemma inv_frame: "sched_inv t \<Longrightarrow> frame t t' \<Longrightarrow> sched_inv t'"
  using sched_ok_frame[of t t'] by (simp add: sched_inv_def) (simp add: frame_def)

lemma inv_other_fields:
  "sched_inv t \<Longrightarrow> sched_inv (t\<lparr> timers := ts \<rparr>)"
  by (simp add: sched_inv_def sched_ok_def queue_ok_def)

lemma inv_turn:
  assumes i: "sched_inv t"
  shows "sched_inv (snd (turn beh ev t))"
proof (cases ev)
  case Timeout
  show ?thesis
  proof (cases "timers t")
    case Nil
    with Timeout i show ?thesis by (simp add: turn_def)
  next
    case (Cons tm ts)
    show ?thesis
    proof (cases tm)
      case StartTimer
      have "sched_inv (snd (executeRequests (t\<lparr> timers := ts \<rparr>)))"
        using i by (auto simp: executeRequests_def sched_inv_def sched_ok_def queue_ok_def)
      with Timeout Cons StartTimer show ?thesis by (simp add: turn_def)
    next
      case AbortTimer
      have "frame (t\<lparr> timers := ts \<rparr>) (snd (callback OnAbort (onabort t) (t\<lparr> timers := ts \<rparr>)))"
        using frame_callback[of OnAbort "t\<lparr> timers := ts \<rparr>" "onabort t"] by simp
      with inv_other_fields[OF i, of ts]
      have "sched_inv (snd (callback OnAbort (onabort t) (t\<lparr> timers := ts \<rparr>)))"
        by (rule inv_frame)
      with Timeout Cons AbortTimer show ?thesis by (simp add: turn_def)
    qed
  qed
next
  case SessionOpen
  show ?thesis
  proof (cases "session t = Requested")
    case False
    with SessionOpen i show ?thesis by (simp add: turn_def)
  next
    case True
    let ?u = "t\<lparr> session := Opened \<rparr>"
    from i True have 0: "\<not> inflight t" "idx t = 0" "ops (trace t) = []" "running t"
      "queue_ok t" by (simp_all add: sched_inv_def sched_ok_def)
    have qu: "queue_ok ?u" using 0 by (simp add: queue_ok_def)
    have nfu: "\<not> inflight ?u" using 0 by simp
    have "in_order (0, False) (trace t) = in_order (0, False) (ops (trace t))"
      by (simp add: in_order_ops)
    then have ou: "in_order (0, False) (trace ?u) = Some (idx ?u, False)" using 0 by simp
    from executeNextRequest_ok[OF qu nfu ou, of beh] 0
    have "sched_inv (snd (executeNextRequest beh ?u))" by (simp add: sched_inv_def)
    with SessionOpen True show ?thesis by (simp add: turn_def)
  qed
next
  case (StatementSuccess v)
  show ?thesis
  proof (cases "inflight t")
    case False
    with StatementSuccess i show ?thesis by (simp add: turn_def)
  next
    case True
    let ?u = "t\<lparr> inflight := False \<rparr>"
    from i True have 0: "session t = Opened" "running t" "queue_ok t"
      "in_order (0, False) (trace t) = Some (idx t, True)"
      "idx t < length (requests t)" "cur t = Some (requests t ! idx t)"
      by (auto simp: sched_inv_def sched_ok_def)
    have c: "cur ?u = Some (requests t ! idx t)" using 0 by simp
    have r: "rid (requests t ! idx t) = idx ?u" using queue_ok_rid[OF 0(3) 0(5)] by simp
    have qu: "queue_ok ?u" using 0 by (simp add: queue_ok_def)
    have nfu: "\<not> inflight ?u" by simp
    have ou: "in_order (0, False) (trace ?u) = Some (idx ?u, True)" using 0 by simp
    from success_ok[OF c r qu nfu ou, of beh v] 0
    have "sched_inv (snd (success beh v ?u))" by (simp add: sched_inv_def)
    with StatementSuccess True show ?thesis by (simp add: turn_def)
  qed
next
  case (StatementError e)
  show ?thesis
  proof (cases "inflight t")
    case False
    with StatementError i show ?thesis by (simp add: turn_def)
  next
    case True
    let ?u = "t\<lparr> inflight := False \<rparr>"
    let ?q = "requests t ! idx t"
    from i True have 0: "session t = Opened" "running t" "queue_ok t"
      "in_order (0, False) (trace t) = Some (idx t, True)"
      "idx t < length (requests t)" "cur t = Some ?q"
      by (auto simp: sched_inv_def sched_ok_def)
    have c: "cur ?u = Some ?q" using 0 by simp
    have r: "rid ?q = idx t" by (rule queue_ok_rid[OF 0(3) 0(5)])
    have qu: "queue_ok ?u" using 0 by (simp add: queue_ok_def)
    have 1: "queue_ok (snd (error e ?u))" using error_keeps[OF c, of e] qu by simp
    have 2: "\<not> inflight (snd (error e ?u))" using error_keeps[OF c, of e] by simp
    have 3: "in_order (0, False) (trace (snd (error e ?u))) = Some (Suc (rid ?q), False)"
      using error_order[OF c, of "(0, False)" e] 0(4) r by simp
    have 4: "session (snd (error e ?u)) = Opened" "running (snd (error e ?u))"
      using error_keeps[OF c, of e] 0 by simp_all
    have "sched_inv (snd (error e ?u))"
      using sched_ok_idle[OF 1 2 3] 2 4 by (simp add: sched_inv_def)
    with StatementError True show ?thesis by (simp add: turn_def)
  qed
next
  case (SuccessRetried v)
  show ?thesis
  proof (cases "inflight t")
    case False
    with SuccessRetried i show ?thesis by (simp add: turn_def)
  next
    case True
    let ?u = "t\<lparr> inflight := False \<rparr>"
    from i True have 0: "session t = Opened" "running t" "queue_ok t"
      "in_order (0, False) (trace t) = Some (idx t, True)"
      "idx t < length (requests t)" "cur t = Some (requests t ! idx t)"
      by (auto simp: sched_inv_def sched_ok_def)
    have c: "cur ?u = Some (requests t ! idx t)" using 0 by simp
    have r: "rid (requests t ! idx t) = idx ?u" using queue_ok_rid[OF 0(3) 0(5)] by simp
    have qu: "queue_ok ?u" using 0 by (simp add: queue_ok_def)
    have nfu: "\<not> inflight ?u" by simp
    have ou: "in_order (0, False) (trace ?u) = Some (idx ?u, True)" using 0 by simp
    obtain x t1 where s1: "success beh v ?u = (x, t1)" by (cases "success beh v ?u")
    from success_ok[OF c r qu nfu ou, of beh v] s1 0
    have 1: "sched_ok t1" "session t1 = Opened" "running t1" by simp_all
    show ?thesis
    proof (cases x)
      case None
      have "\<not> inflight t1 \<or> session t1 = Opened" using 1 by simp
      with 1 have "sched_inv t1" by (auto simp: sched_inv_def)
      with SuccessRetried True s1 None show ?thesis by (simp add: turn_def)
    next
      case (Some e)
      with success_retry[OF c r qu nfu ou, of beh v] s1 have "retry_ok t1" by simp
      from success_again[OF this, of beh v] 1
      have "sched_inv (snd (success beh v t1))" by (simp add: sched_inv_def)
      with SuccessRetried True s1 Some show ?thesis by (simp add: turn_def)
    qed
  qed
next
  case (ErrorRetried e e')
  show ?thesis
  proof (cases "inflight t")
    case False
    with ErrorRetried i show ?thesis by (simp add: turn_def)
  next
    case True
    let ?u = "t\<lparr> inflight := False \<rparr>"
    let ?q = "requests t ! idx t"
    from i True have 0: "session t = Opened" "running t" "queue_ok t"
      "in_order (0, False) (trace t) = Some (idx t, True)"
      "idx t < length (requests t)" "cur t = Some ?q"
      by (auto simp: sched_inv_def sched_ok_def)
    have c: "cur ?u = Some ?q" using 0 by simp
    have r: "rid ?q = idx t" by (rule queue_ok_rid[OF 0(3) 0(5)])
    have qu: "queue_ok ?u" using 0 by (simp add: queue_ok_def)
    obtain x t1 where e1: "error e ?u = (x, t1)" by (cases "error e ?u")
    have 1: "queue_ok t1" "\<not> inflight t1" "cur t1 = Some ?q"
      "session t1 = Opened" "running t1"
      using error_keeps[OF c, of e] qu 0 e1 by simp_all
    have 3: "in_order (0, False) (trace t1) = Some (Suc (rid ?q), False)"
      using error_order[OF c, of "(0, False)" e] 0(4) r e1 by simp
    show ?thesis
    proof (cases x)
      case None
      have "sched_inv t1" using sched_ok_idle[OF 1(1) 1(2) 3] 1 by (simp add: sched_inv_def)
      with ErrorRetried True e1 None show ?thesis by (simp add: turn_def)
    next
      case (Some y)
      have 4: "queue_ok (snd (error e' t1))" "\<not> inflight (snd (error e' t1))"
        "session (snd (error e' t1)) = Opened" "running (snd (error e' t1))"
        using error_keeps[OF 1(3), of e'] 1 by simp_all
      have 5: "in_order (0, False) (trace (snd (error e' t1))) = Some (Suc (rid ?q), False)"
        using error_order[OF 1(3), of "(0, False)" e'] 3 by simp
      have "sched_inv (snd (error e' t1))"
        using sched_ok_idle[OF 4(1) 4(2) 5] 4 by (simp add: sched_inv_def)
      with ErrorRetried True e1 Some show ?thesis by (simp add: turn_def)
    qed
  qed
next
  case (WebSqlError e)
  have "sched_inv (snd (transactionError e t))" by (rule inv_frame[OF i frame_transactionError])
  with WebSqlError i show ?thesis by (simp add: turn_def)
next
  case (Caller acts)
  have "sched_inv (snd (run_actions acts t))" by (rule inv_frame[OF i frame_run_actions])
  with Caller show ?thesis by (simp add: turn_def)
qed

lemma inv_step: "sched_inv t \<Longrightarrow> sched_inv (step beh t ev)"
proof -
  assume i: "sched_inv t"
  obtain x t' where tu: "turn beh ev t = (x, t')" by (cases "turn beh ev t")
  from inv_turn[OF i, of beh ev] tu have i': "sched_inv t'" by simp
  show ?thesis
  proof (cases x)
    case None
    with tu i' show ?thesis by (simp add: step_def)
  next
    case (Some e)
    have "frame t' (t'\<lparr> trace := trace t' @ [Uncaught e] \<rparr>)" by (rule frame_event) simp
    with i' have "sched_inv (t'\<lparr> trace := trace t' @ [Uncaught e] \<rparr>)" by (rule inv_frame)
    with tu Some show ?thesis by (simp add: step_def)
  qed
qed

lemma inv_run: "sched_inv t \<Longrightarrow> sched_inv (run beh evs t)"
  unfolding run_def by (induction evs arbitrary: t) (simp_all add: inv_step)

lemma inv_new: "sched_inv (IDBTransaction m h1 h2 h3 h4)"
  by (simp add: sched_inv_def sched_ok_def queue_ok_def IDBTransaction_def ops_def)

subsection \<open>A queue of operations that all succeed\<close>

lemma run_actions_enqueue_all:
  "active t \<Longrightarrow>
   run_actions (map (\<lambda>f. Enqueue f [] []) fs) t =
     (None, t\<lparr> requests := requests t @
                   map (\<lambda>i. \<lparr> rid = created t + i, op = fs ! i, onsuccess = [], onerror = [] \<rparr>)
                     [0 ..< length fs],
               created := created t + length fs \<rparr>)"
proof (induction fs arbitrary: t)
  case Nil
  then show ?case by simp
next
  case (Cons f fs)
  let ?t1 = "t\<lparr> requests := requests t @
                       [\<lparr> rid = created t, op = f, onsuccess = [], onerror = [] \<rparr>],
                     created := Suc (created t) \<rparr>"
  have a: "active ?t1" using Cons.prems by simp
  have u: "[0 ..< Suc (length fs)] = 0 # map Suc [0 ..< length fs]"
    by (simp add: upt_conv_Cons map_Suc_upt del: upt_Suc)
  have m: "map (\<lambda>i. \<lparr> rid = created t + i, op = (f # fs) ! i, onsuccess = [], onerror = [] \<rparr>)
             [0 ..< Suc (length fs)]
         = \<lparr> rid = created t, op = f, onsuccess = [], onerror = [] \<rparr> #
           map (\<lambda>i. \<lparr> rid = Suc (created t) + i, op = fs ! i, onsuccess = [], onerror = [] \<rparr>)
             [0 ..< length fs]"
    by (simp add: u o_def del: upt_Suc)
  show ?case
    using Cons.prems Cons.IH[OF a] by (simp add: pushToQueue_if m del: upt_Suc)
qed

text \<open>
  The state in which operation \<open>idx\<close> of \<open>n\<close> queued ones waits for the backend, none of
  the requests has a handler, and every closure goes to the backend.
\<close>

lemma drain_all:
  assumes "active t" and "inflight t" and "idx t < length (requests t)"
    and "cur t = Some (requests t ! idx t)"
    and "\<forall>i < length (requests t). rid (requests t ! i) = i \<and>
           onsuccess (requests t ! i) = [] \<and> beh (op (requests t ! i)) = CallsBackend"
    and "oncomplete t = []"
    and "length vs = length (requests t) - idx t - 1"
  shows "trace (run beh (map StatementSuccess (v # vs)) t)
         = trace t @ OnSuccess (idx t) v # fifo_trace (Suc (idx t)) vs"
  using assms
proof (induction vs arbitrary: t v)
  case Nil
  then have l: "length (requests t) = Suc (idx t)" by simp
  from Nil have r: "rid (requests t ! idx t) = idx t" "onsuccess (requests t ! idx t) = []"
    by simp_all
  show ?case
    using Nil.prems(1,2,4,6) l r
    by (simp add: run_def step_def turn_def success_def callback_def
        executeNextRequest_def transactionFinished_def)
next
  case (Cons w ws)
  then have l: "Suc (idx t) < length (requests t)" by simp
  from Cons.prems have r: "rid (requests t ! idx t) = idx t" "onsuccess (requests t ! idx t) = []"
    by simp_all
  from Cons.prems(5) l have r1: "rid (requests t ! Suc (idx t)) = Suc (idx t)"
    "beh (op (requests t ! Suc (idx t))) = CallsBackend" by simp_all
  let ?t' = "t\<lparr> inflight := True,
               results := (results t)(idx t \<mapsto> Succeeded v),
               trace := trace t @ [OnSuccess (idx t) v, OpBegin (Suc (idx t))],
               idx := Suc (idx t),
               cur := Some (requests t ! Suc (idx t)) \<rparr>"
  have s: "step beh t (StatementSuccess v) = ?t'"
    using Cons.prems(1,2,4) l r r1
    by (simp add: step_def turn_def success_def callback_def
        executeNextRequest_def start_op_def Let_def)
  have ih: "trace (run beh (map StatementSuccess (w # ws)) ?t')
         = trace ?t' @ OnSuccess (idx ?t') w # fifo_trace (Suc (idx ?t')) ws"
    using Cons.prems l by (intro Cons.IH) simp_all
  have "run beh (map StatementSuccess (v # w # ws)) t
        = run beh (map StatementSuccess (w # ws)) ?t'"
    using s by (simp add: run_def)
  with ih show ?case by simp
qed

subsection \<open>More about the two finalizers\<close>

lemma transactionFinished_inactive:
  "\<not> active t \<Longrightarrow> \<not> active (snd (transactionFinished t))"
  using frame_transactionFinished[of t] by (auto simp: frame_def)

lemma fst_try_finally:
  "fst (try_finally body fin t) =
     (case fst (fin (snd (body t))) of Some e \<Rightarrow> Some e | None \<Rightarrow> fst (body t))"
  by (cases "body t"; cases "fin (snd (body t))") (simp add: try_finally_def split: option.splits)

lemma callback_fields:
  "trace (snd (callback ev h t)) = trace t @ [ev]"
  "errored (snd (callback ev h t)) = errored t"
  "tx_error (snd (callback ev h t)) = tx_error t"
  "results (snd (callback ev h t)) = results t"
  by (simp_all add: callback_def)

lemma abort_fields:
  "trace (abort t) = trace t" "errored (abort t) = errored t" "tx_error (abort t) = tx_error t"
  "\<not> active (abort t)" "timers (abort t) = timers t @ [AbortTimer]"
  "requests (abort t) = requests t" "idx (abort t) = idx t" "results (abort t) = results t"
  by (simp_all add: abort_def)

text \<open>What \<open>transactionError\<close> does to an active transaction that has not yet failed.\<close>

lemma transactionError_active_effect:
  assumes "\<not> errored t" and "active t"
  shows "trace (snd (transactionError e t)) =
           trace t @ TxOnError e #
             (if fst (callback (TxOnError e) (tx_onerror t)
                        (t\<lparr> errored := True, tx_error := Some e \<rparr>)) = None
              then [DbOnError e] else [])"
    and "tx_error (snd (transactionError e t)) = Some e"
    and "\<not> active (snd (transactionError e t))"
    and "timers (snd (transactionError e t)) \<noteq> [] \<and>
         last (timers (snd (transactionError e t))) = AbortTimer"
  using assms
  by (simp_all add: transactionError_active Let_def callback_fields abort_fields)

lemma transactionError_trace_grows:
  "\<exists>es. trace (snd (transactionError e t)) = trace t @ es"
proof (cases "errored t")
  case True
  then show ?thesis by (simp add: transactionError_errored)
next
  case ne: False
  show ?thesis
  proof (cases "active t")
    case False
    with ne show ?thesis by (simp add: transactionError_inactive)
  next
    case True
    with ne show ?thesis by (simp add: transactionError_active_effect(1))
  qed
qed

lemma fire_request_error_fields:
  assumes "cur t = Some q"
  shows "trace (snd (fire_request_error e t)) = trace t @ [OnError (rid q) e]"
    and "errored (snd (fire_request_error e t)) = errored t"
    and "results (snd (fire_request_error e t)) = (results t)(rid q \<mapsto> Failed e)"
  using assms by (simp_all add: fire_request_error_def callback_fields)

subsection \<open>What each part of the scheduler adds to the trace\<close>

lemma emitsI: "trace t' = trace t @ es \<Longrightarrow> list_all P es \<Longrightarrow> emits P t t'"
  by (simp add: emits_def)

lemma emitsD: "emits P t t' \<Longrightarrow> \<exists>es. trace t' = trace t @ es \<and> list_all P es"
proof -
  assume a: "emits P t t'"
  have "trace t' = take (length (trace t)) (trace t') @ drop (length (trace t)) (trace t')"
    by simp
  with a show ?thesis unfolding emits_def by metis
qed

lemma emits_same: "trace t' = trace t \<Longrightarrow> emits P t t'"
  by (simp add: emits_def)

lemma emits_trans: "emits P t t1 \<Longrightarrow> emits P t1 t2 \<Longrightarrow> emits P t t2"
proof -
  assume "emits P t t1" and "emits P t1 t2"
  then obtain es fs where "trace t1 = trace t @ es" "list_all P es"
    "trace t2 = trace t1 @ fs" "list_all P fs"
    using emitsD by blast
  then show ?thesis by (intro emitsI[where es = "es @ fs"]) simp_all
qed

lemma emits_run_actions: "emits P t (snd (run_actions h t))"
  by (rule emits_same) simp

lemma emits_callback: "P ev \<Longrightarrow> emits P t (snd (callback ev h t))"
  by (rule emitsI[where es = "[ev]"]) (simp_all add: callback_fields)

lemma emits_transactionError:
  assumes "P (TxOnError e)" and "P (DbOnError e)"
  shows "emits P t (snd (transactionError e t))"
proof (cases "errored t")
  case True
  then show ?thesis by (simp add: transactionError_errored emits_same)
next
  case ne: False
  show ?thesis
  proof (cases "active t")
    case False
    with ne show ?thesis by (simp add: transactionError_inactive emits_same)
  next
    case True
    show ?thesis
      by (rule emitsI[OF transactionError_active_effect(1)[OF ne True]]) (simp add: assms)
  qed
qed

lemma emits_transactionFinished:
  assumes "P OnComplete" and "P OnCompleteInternal"
  shows "emits P t (snd (transactionFinished t))"
proof -
  obtain x t1 where c: "callback OnComplete (oncomplete t) t = (x, t1)"
    by (cases "callback OnComplete (oncomplete t) t")
  then have tr: "trace t1 = trace t @ [OnComplete]"
    using callback_fields(1)[of OnComplete "oncomplete t" t] by simp
  show ?thesis
  proof (cases x)
    case None
    with c tr show ?thesis
      by (intro emitsI[where es = "[OnComplete, OnCompleteInternal]"])
         (simp_all add: transactionFinished_def assms)
  next
    case (Some a)
    with c tr show ?thesis
      by (intro emitsI[where es = "[OnComplete]"]) (simp_all add: transactionFinished_def assms)
  qed
qed

lemma emits_fire_request_error:
  assumes "\<And>j. P (OnError j e)"
  shows "emits P t (snd (fire_request_error e t))"
proof (cases "cur t")
  case None
  then show ?thesis by (simp add: fire_request_error_def emits_same)
next
  case (Some q)
  show ?thesis
    by (rule emitsI[OF fire_request_error_fields(1)[OF Some]]) (simp add: assms)
qed

lemma emits_error:
  assumes "\<And>j. P (OnError j e)" and "P (TxOnError e)" and "P (DbOnError e)"
  shows "emits P t (snd (error e t))"
  unfolding error_def snd_try_finally
  by (rule emits_trans[OF emits_fire_request_error emits_transactionError]) (simp_all add: assms)

lemma emits_executeNextRequest:
  assumes P: "\<And>ev. ev \<noteq> OnAbort \<Longrightarrow> P ev"
  shows "emits P t (snd (executeNextRequest beh t))"
proof (cases "length (requests t) \<le> idx t")
  case True
  have "emits P (t\<lparr> requests := [], active := False \<rparr>)
          (snd (transactionFinished (t\<lparr> requests := [], active := False \<rparr>)))"
    by (rule emits_transactionFinished) (simp_all add: P)
  then have "emits P t (snd (transactionFinished (t\<lparr> requests := [], active := False \<rparr>)))"
    by (simp add: emits_def)
  then show ?thesis using True by (simp add: executeNextRequest_drained emits_same)
next
  case False
  then have lt: "idx t < length (requests t)" by simp
  let ?q = "requests t ! idx t"
  let ?u = "t\<lparr> cur := Some ?q, trace := trace t @ [OpBegin (rid ?q)] \<rparr>"
  have eu: "emits P t ?u" by (rule emitsI[where es = "[OpBegin (rid ?q)]"]) (simp_all add: P)
  have ee: "\<And>e w. emits P w (snd (error e w))" by (rule emits_error) (simp_all add: P)
  show ?thesis
  proof (cases "beh (op ?q)")
    case CallsBackend
    have "emits P t (?u\<lparr> inflight := True \<rparr>)"
      by (rule emitsI[where es = "[OpBegin (rid ?q)]"]) (simp_all add: P)
    then show ?thesis using lt CallsBackend by (simp add: executeNextRequest_calls)
  next
    case (ThrowsSync e)
    have "emits P t (snd (error e ?u))" by (rule emits_trans[OF eu ee])
    then show ?thesis using lt ThrowsSync by (simp add: executeNextRequest_throws)
  next
    case (FailsSync e)
    obtain x t2 where e1: "error e ?u = (x, t2)" by (cases "error e ?u")
    have 1: "emits P t t2" using emits_trans[OF eu ee[of ?u e]] e1 by simp
    show ?thesis
    proof (cases x)
      case None
      with 1 e1 lt FailsSync show ?thesis by (simp add: executeNextRequest_fails)
    next
      case (Some e')
      have "emits P t (snd (error e' t2))" by (rule emits_trans[OF 1 ee])
      with e1 Some lt FailsSync show ?thesis by (simp add: executeNextRequest_fails)
    qed
  qed
qed

lemma emits_success:
  assumes P: "\<And>ev. ev \<noteq> OnAbort \<Longrightarrow> P ev"
  shows "emits P t (snd (success beh v t))"
proof (cases "cur t")
  case None
  then show ?thesis by (simp add: success_def emits_same)
next
  case (Some q)
  let ?u = "t\<lparr> results := (results t)(rid q \<mapsto> Succeeded v),
               trace := trace t @ [OnSuccess (rid q) v] \<rparr>"
  obtain x t2 where ra: "run_actions (onsuccess q) ?u = (x, t2)"
    by (cases "run_actions (onsuccess q) ?u")
  then have "trace t2 = trace ?u" using run_actions_trace[of "onsuccess q" ?u] by simp
  then have 1: "emits P t t2"
    by (intro emitsI[where es = "[OnSuccess (rid q) v]"]) (simp_all add: P)
  show ?thesis
  proof (cases x)
    case None
    have "emits P (t2\<lparr> idx := Suc (idx t2) \<rparr>)
            (snd (executeNextRequest beh (t2\<lparr> idx := Suc (idx t2) \<rparr>)))"
      by (rule emits_executeNextRequest) (rule P)
    then have "emits P t2 (snd (executeNextRequest beh (t2\<lparr> idx := Suc (idx t2) \<rparr>)))"
      by (simp add: emits_def)
    with 1 have "emits P t (snd (executeNextRequest beh (t2\<lparr> idx := Suc (idx t2) \<rparr>)))"
      by (rule emits_trans)
    with Some ra None show ?thesis by (simp add: success_unfold)
  next
    case (Some e)
    with 1 ra \<open>cur t = Some q\<close> show ?thesis by (simp add: success_unfold)
  qed
qed

text \<open>Only the turn of a timer fires the abort notification.\<close>

lemma emits_turn:
  assumes P: "\<And>ev. ev \<noteq> OnAbort \<Longrightarrow> P ev" and nt: "ev \<noteq> Timeout"
  shows "emits P t (snd (turn beh ev t))"
proof (cases ev)
  case Timeout
  with nt show ?thesis by simp
next
  case SessionOpen
  have "emits P (t\<lparr> session := Opened \<rparr>) (snd (executeNextRequest beh (t\<lparr> session := Opened \<rparr>)))"
    by (rule emits_executeNextRequest) (rule P)
  then have "emits P t (snd (executeNextRequest beh (t\<lparr> session := Opened \<rparr>)))"
    by (simp add: emits_def)
  with SessionOpen show ?thesis by (simp add: turn_def emits_same)
next
  case (StatementSuccess v)
  have "emits P (t\<lparr> inflight := False \<rparr>) (snd (success beh v (t\<lparr> inflight := False \<rparr>)))"
    by (rule emits_success) (rule P)
  then have "emits P t (snd (success beh v (t\<lparr> inflight := False \<rparr>)))"
    by (simp add: emits_def)
  with StatementSuccess show ?thesis by (simp add: turn_def emits_same)
next
  case (StatementError e)
  have "emits P (t\<lparr> inflight := False \<rparr>) (snd (error e (t\<lparr> inflight := False \<rparr>)))"
    by (rule emits_error) (simp_all add: P)
  then have "emits P t (snd (error e (t\<lparr> inflight := False \<rparr>)))"
    by (simp add: emits_def)
  with StatementError show ?thesis by (simp add: turn_def emits_same)
next
  case (SuccessRetried v)
  obtain x t1 where s1: "success beh v (t\<lparr> inflight := False \<rparr>) = (x, t1)"
    by (cases "success beh v (t\<lparr> inflight := False \<rparr>)")
  have "emits P (t\<lparr> inflight := False \<rparr>) (snd (success beh v (t\<lparr> inflight := False \<rparr>)))"
    by (rule emits_success) (rule P)
  with s1 have 1: "emits P t t1" by (simp add: emits_def)
  have "emits P t1 (snd (success beh v t1))" by (rule emits_success) (rule P)
  with 1 have 2: "emits P t (snd (success beh v t1))" by (rule emits_trans)
  show ?thesis using SuccessRetried s1 1 2
    by (cases x) (simp_all add: turn_def emits_same)
next
  case (ErrorRetried e e')
  obtain x t1 where e1: "error e (t\<lparr> inflight := False \<rparr>) = (x, t1)"
    by (cases "error e (t\<lparr> inflight := False \<rparr>)")
  have "emits P (t\<lparr> inflight := False \<rparr>) (snd (error e (t\<lparr> inflight := False \<rparr>)))"
    by (rule emits_error) (simp_all add: P)
  with e1 have 1: "emits P t t1" by (simp add: emits_def)
  have "emits P t1 (snd (error e' t1))" by (rule emits_error) (simp_all add: P)
  with 1 have 2: "emits P t (snd (error e' t1))" by (rule emits_trans)
  show ?thesis using ErrorRetried e1 1 2
    by (cases x) (simp_all add: turn_def emits_same)
next
  case (WebSqlError e)
  have "emits P t (snd (transactionError e t))"
    by (rule emits_transactionError) (simp_all add: P)
  with WebSqlError show ?thesis by (simp add: turn_def emits_same)
next
  case (Caller acts)
  then show ?thesis by (simp add: turn_def emits_run_actions)
qed

lemma emits_step:
  assumes P: "\<And>ev. ev \<noteq> OnAbort \<Longrightarrow> P ev" and nt: "ev \<noteq> Timeout"
  shows "emits P t (step beh t ev)"
proof -
  obtain x t' where tu: "turn beh ev t = (x, t')" by (cases "turn beh ev t")
  with emits_turn[where t = t and beh = beh and P = P, OF P nt] have 1: "emits P t t'" by simp
  show ?thesis
  proof (cases x)
    case None
    with tu 1 show ?thesis by (simp add: step_def)
  next
    case (Some e)
    have "emits P t' (t'\<lparr> trace := trace t' @ [Uncaught e] \<rparr>)"
      by (rule emitsI[where es = "[Uncaught e]"]) (simp_all add: P)
    with 1 have "emits P t (t'\<lparr> trace := trace t' @ [Uncaught e] \<rparr>)" by (rule emits_trans)
    with tu Some show ?thesis by (simp add: step_def)
  qed
qed

lemma emits_take:
  "emits P u t' \<Longrightarrow> take (length (trace u)) (trace t') = trace u"
  by (simp add: emits_def)

text \<open>\<open>executeNextRequest\<close> starts the request at position \<open>i\<close> whenever there is one.\<close>

lemma executeNextRequest_begins:
  assumes lt: "idx t < length (requests t)"
  shows "take (Suc (length (trace t))) (trace (snd (executeNextRequest beh t)))
         = trace t @ [OpBegin (rid (requests t ! idx t))]"
proof -
  let ?q = "requests t ! idx t"
  let ?u = "t\<lparr> cur := Some ?q, trace := trace t @ [OpBegin (rid ?q)] \<rparr>"
  have ee: "\<And>e w. emits (\<lambda>_. True) w (snd (error e w))" by (rule emits_error) simp_all
  have "emits (\<lambda>_. True) ?u (snd (executeNextRequest beh t))"
  proof (cases "beh (op ?q)")
    case CallsBackend
    then show ?thesis using lt by (simp add: executeNextRequest_calls emits_def)
  next
    case (ThrowsSync e)
    then show ?thesis using lt ee[of ?u e] by (simp add: executeNextRequest_throws)
  next
    case (FailsSync e)
    obtain x t2 where e1: "error e ?u = (x, t2)" by (cases "error e ?u")
    with ee[of ?u e] have 1: "emits (\<lambda>_. True) ?u t2" by simp
    show ?thesis
    proof (cases x)
      case None
      with 1 e1 lt FailsSync show ?thesis by (simp add: executeNextRequest_fails)
    next
      case (Some e')
      have "emits (\<lambda>_. True) ?u (snd (error e' t2))" by (rule emits_trans[OF 1 ee])
      with e1 Some lt FailsSync show ?thesis by (simp add: executeNextRequest_fails)
    qed
  qed
  from emits_take[OF this] show ?thesis by simp
qed

subsection \<open>\<open>errored\<close> stays set\<close>

lemma frame_keeps_errored: "frame t t' \<Longrightarrow> errored t \<Longrightarrow> errored t'"
  by (simp add: frame_def)

lemma executeNextRequest_errored:
  assumes "errored t"
  shows "errored (snd (executeNextRequest beh t))"
proof (cases "length (requests t) \<le> idx t")
  case True
  have "errored (snd (transactionFinished (t\<lparr> requests := [], active := False \<rparr>)))"
    by (rule frame_keeps_errored[OF frame_transactionFinished]) (simp add: assms)
  then show ?thesis using True assms by (simp add: executeNextRequest_drained)
next
  case False
  then have lt: "idx t < length (requests t)" by simp
  show ?thesis
  proof (cases "beh (op (requests t ! idx t))")
    case CallsBackend
    then show ?thesis using lt assms by (simp add: executeNextRequest_calls)
  next
    case (ThrowsSync e)
    then show ?thesis using lt by (simp add: executeNextRequest_throws error_errored)
  next
    case (FailsSync e)
    let ?u = "t\<lparr> cur := Some (requests t ! idx t),
                 trace := trace t @ [OpBegin (rid (requests t ! idx t))] \<rparr>"
    obtain x t2 where e1: "error e ?u = (x, t2)" by (cases "error e ?u")
    with error_errored[of e ?u] have e2: "errored t2" by simp
    show ?thesis
    proof (cases x)
      case None
      with e1 e2 lt FailsSync show ?thesis by (simp add: executeNextRequest_fails)
    next
      case (Some e')
      with e1 lt FailsSync show ?thesis by (simp add: executeNextRequest_fails error_errored)
    qed
  qed
qed

lemma success_errored:
  assumes "errored t"
  shows "errored (snd (success beh v t))"
proof (cases "cur t")
  case None
  then show ?thesis using assms by (simp add: success_def)
next
  case (Some q)
  let ?u = "t\<lparr> results := (results t)(rid q \<mapsto> Succeeded v),
               trace := trace t @ [OnSuccess (rid q) v] \<rparr>"
  obtain x t2 where ra: "run_actions (onsuccess q) ?u = (x, t2)"
    by (cases "run_actions (onsuccess q) ?u")
  then have e2: "errored t2" using run_actions_errored[of "onsuccess q" ?u] assms by simp
  show ?thesis
  proof (cases x)
    case None
    have "errored (snd (executeNextRequest beh (t2\<lparr> idx := Suc (idx t2) \<rparr>)))"
      by (rule executeNextRequest_errored) (simp add: e2)
    with Some ra None show ?thesis by (simp add: success_unfold)
  next
    case (Some e)
    with e2 ra \<open>cur t = Some q\<close> show ?thesis by (simp add: success_unfold)
  qed
qed

lemma turn_errored:
  assumes "errored t"
  shows "errored (snd (turn beh ev t))"
proof (cases ev)
  case Timeout
  show ?thesis
  proof (cases "timers t")
    case Nil
    with Timeout assms show ?thesis by (simp add: turn_def)
  next
    case (Cons tm ts)
    then show ?thesis using Timeout assms
      by (cases tm) (simp_all add: turn_def executeRequests_def callback_fields)
  qed
next
  case SessionOpen
  have "errored (snd (executeNextRequest beh (t\<lparr> session := Opened \<rparr>)))"
    by (rule executeNextRequest_errored) (simp add: assms)
  with SessionOpen assms show ?thesis by (simp add: turn_def)
next
  case (StatementSuccess v)
  have "errored (snd (success beh v (t\<lparr> inflight := False \<rparr>)))"
    by (rule success_errored) (simp add: assms)
  with StatementSuccess assms show ?thesis by (simp add: turn_def)
next
  case (StatementError e)
  with assms show ?thesis by (simp add: turn_def error_errored)
next
  case (SuccessRetried v)
  obtain x t1 where s1: "success beh v (t\<lparr> inflight := False \<rparr>) = (x, t1)"
    by (cases "success beh v (t\<lparr> inflight := False \<rparr>)")
  have "errored (snd (success beh v (t\<lparr> inflight := False \<rparr>)))"
    by (rule success_errored) (simp add: assms)
  with s1 have 1: "errored t1" by simp
  then have 2: "errored (snd (success beh v t1))" by (rule success_errored)
  show ?thesis using SuccessRetried s1 1 2 assms
    by (cases x) (simp_all add: turn_def)
next
  case (ErrorRetried e e')
  obtain x t1 where e1: "error e (t\<lparr> inflight := False \<rparr>) = (x, t1)"
    by (cases "error e (t\<lparr> inflight := False \<rparr>)")
  with error_errored[of e "t\<lparr> inflight := False \<rparr>"] have 1: "errored t1" by simp
  show ?thesis using ErrorRetried e1 1 assms
    by (cases x) (simp_all add: turn_def error_errored)
next
  case (WebSqlError e)
  with assms show ?thesis by (simp add: turn_def transactionError_sets_errored)
next
  case (Caller acts)
  with assms show ?thesis by (simp add: turn_def)
qed

lemma step_errored: "errored t \<Longrightarrow> errored (step beh t ev)"
  using turn_errored[of t beh ev]
  by (cases "turn beh ev t") (simp add: step_def split: option.splits)

subsection \<open>Completion and error exclude each other\<close>

lemma terminals_append: "terminals (xs @ ys) = terminals xs + terminals ys"
  by (simp add: terminals_def)

lemma one_terminal_quiet:
  assumes "one_terminal t" and "terminals (trace t') = terminals (trace t)"
    and "active t' \<Longrightarrow> active t"
  shows "one_terminal t'"
  using assms by (auto simp: one_terminal_def)

lemma one_terminal_run_actions: "one_terminal t \<Longrightarrow> one_terminal (snd (run_actions h t))"
  by (rule one_terminal_quiet[where t = t]) (simp_all add: run_actions_active)

lemma one_terminal_event:
  "one_terminal t \<Longrightarrow> \<not> is_terminal ev \<Longrightarrow> one_terminal (t\<lparr> trace := trace t @ [ev] \<rparr>)"
  by (rule one_terminal_quiet[where t = t]) (simp_all add: terminals_def)

lemma one_terminal_callback:
  "one_terminal t \<Longrightarrow> \<not> is_terminal ev \<Longrightarrow> one_terminal (snd (callback ev h t))"
  unfolding callback_def by (intro one_terminal_run_actions one_terminal_event)

lemma one_terminal_transactionError:
  assumes o: "one_terminal t"
  shows "one_terminal (snd (transactionError e t))"
proof (cases "errored t")
  case True
  with o show ?thesis by (simp add: transactionError_errored)
next
  case ne: False
  show ?thesis
  proof (cases "active t")
    case False
    have "one_terminal (t\<lparr> errored := True \<rparr>)"
      by (rule one_terminal_quiet[OF o]) simp_all
    with ne False show ?thesis by (simp add: transactionError_inactive)
  next
    case True
    with o have z: "terminals (trace t) = 0" by (simp add: one_terminal_def)
    show ?thesis
      using transactionError_active_effect(1,3)[OF ne True, of e] z
      by (simp add: one_terminal_def terminals_append) (simp add: terminals_def)
  qed
qed

lemma one_terminal_transactionFinished:
  assumes z: "terminals (trace t) = 0" and na: "\<not> active t"
  shows "one_terminal (snd (transactionFinished t))"
proof -
  obtain x t1 where c: "callback OnComplete (oncomplete t) t = (x, t1)"
    by (cases "callback OnComplete (oncomplete t) t")
  then have tr: "trace t1 = trace t @ [OnComplete]"
    using callback_fields(1)[of OnComplete "oncomplete t" t] by simp
  have "terminals (trace (snd (transactionFinished t))) = 1"
    using c tr z
    by (cases x) (simp_all add: transactionFinished_def terminals_append, simp_all add: terminals_def)
  then show ?thesis
    using transactionFinished_inactive[OF na] by (simp add: one_terminal_def)
qed

lemma one_terminal_error:
  assumes o: "one_terminal t"
  shows "one_terminal (snd (error e t))"
proof -
  have "one_terminal (snd (fire_request_error e t))"
  proof (cases "cur t")
    case None
    with o show ?thesis by (simp add: fire_request_error_def)
  next
    case (Some q)
    have "one_terminal (t\<lparr> results := (results t)(rid q \<mapsto> Failed e) \<rparr>)"
      by (rule one_terminal_quiet[OF o]) simp_all
    then have "one_terminal (snd (callback (OnError (rid q) e) (onerror q)
                 (t\<lparr> results := (results t)(rid q \<mapsto> Failed e) \<rparr>)))"
      by (rule one_terminal_callback) simp
    with Some show ?thesis by (simp add: fire_request_error_def)
  qed
  then show ?thesis
    unfolding error_def snd_try_finally by (rule one_terminal_transactionError)
qed

lemma one_terminal_executeNextRequest:
  assumes o: "one_terminal t"
  shows "one_terminal (snd (executeNextRequest beh t))"
proof (cases "length (requests t) \<le> idx t")
  case True
  show ?thesis
  proof (cases "active t")
    case act: True
    with o have z: "terminals (trace t) = 0" by (simp add: one_terminal_def)
    have "one_terminal (snd (transactionFinished (t\<lparr> requests := [], active := False \<rparr>)))"
      by (rule one_terminal_transactionFinished) (simp_all add: z)
    with True act show ?thesis by (simp add: executeNextRequest_drained)
  next
    case False
    have "one_terminal (t\<lparr> requests := [] \<rparr>)"
      by (rule one_terminal_quiet[OF o]) simp_all
    with True False show ?thesis by (simp add: executeNextRequest_drained)
  qed
next
  case False
  then have lt: "idx t < length (requests t)" by simp
  let ?q = "requests t ! idx t"
  let ?u = "t\<lparr> cur := Some ?q, trace := trace t @ [OpBegin (rid ?q)] \<rparr>"
  have ou: "one_terminal ?u"
    by (rule one_terminal_quiet[OF o]) (simp_all add: terminals_def)
  show ?thesis
  proof (cases "beh (op ?q)")
    case CallsBackend
    have "one_terminal (?u\<lparr> inflight := True \<rparr>)"
      by (rule one_terminal_quiet[OF ou]) simp_all
    with lt CallsBackend show ?thesis by (simp add: executeNextRequest_calls)
  next
    case (ThrowsSync e)
    with lt one_terminal_error[OF ou, of e] show ?thesis
      by (simp add: executeNextRequest_throws)
  next
    case (FailsSync e)
    obtain x t2 where e1: "error e ?u = (x, t2)" by (cases "error e ?u")
    with one_terminal_error[OF ou, of e] have o2: "one_terminal t2" by simp
    show ?thesis
    proof (cases x)
      case None
      with e1 o2 lt FailsSync show ?thesis by (simp add: executeNextRequest_fails)
    next
      case (Some e')
      with e1 lt FailsSync one_terminal_error[OF o2, of e'] show ?thesis
        by (simp add: executeNextRequest_fails)
    qed
  qed
qed

lemma one_terminal_success:
  assumes o: "one_terminal t"
  shows "one_terminal (snd (success beh v t))"
proof (cases "cur t")
  case None
  with o show ?thesis by (simp add: success_def)
next
  case (Some q)
  let ?u = "t\<lparr> results := (results t)(rid q \<mapsto> Succeeded v),
               trace := trace t @ [OnSuccess (rid q) v] \<rparr>"
  have ou: "one_terminal ?u"
    by (rule one_terminal_quiet[OF o]) (simp_all add: terminals_def)
  obtain x t2 where ra: "run_actions (onsuccess q) ?u = (x, t2)"
    by (cases "run_actions (onsuccess q) ?u")
  with one_terminal_run_actions[OF ou, of "onsuccess q"] have o2: "one_terminal t2" by simp
  show ?thesis
  proof (cases x)
    case None
    have "one_terminal (t2\<lparr> idx := Suc (idx t2) \<rparr>)"
      by (rule one_terminal_quiet[OF o2]) simp_all
    then have "one_terminal (snd (executeNextRequest beh (t2\<lparr> idx := Suc (idx t2) \<rparr>)))"
      by (rule one_terminal_executeNextRequest)
    with Some ra None show ?thesis by (simp add: success_unfold)
  next
    case (Some e)
    with o2 ra \<open>cur t = Some q\<close> show ?thesis by (simp add: success_unfold)
  qed
qed

lemma one_terminal_turn:
  assumes o: "one_terminal t"
  shows "one_terminal (snd (turn beh ev t))"
proof (cases ev)
  case Timeout
  show ?thesis
  proof (cases "timers t")
    case Nil
    with Timeout o show ?thesis by (simp add: turn_def)
  next
    case (Cons tm ts)
    have ot: "one_terminal (t\<lparr> timers := ts \<rparr>)"
      by (rule one_terminal_quiet[OF o]) simp_all
    show ?thesis
    proof (cases tm)
      case StartTimer
      have "one_terminal (snd (executeRequests (t\<lparr> timers := ts \<rparr>)))"
        by (rule one_terminal_quiet[OF ot]) (simp_all add: executeRequests_def split: if_splits)
      with Timeout Cons StartTimer show ?thesis by (simp add: turn_def)
    next
      case AbortTimer
      have "one_terminal (snd (callback OnAbort (onabort t) (t\<lparr> timers := ts \<rparr>)))"
        by (rule one_terminal_callback[OF ot]) simp
      with Timeout Cons AbortTimer show ?thesis by (simp add: turn_def)
    qed
  qed
next
  case SessionOpen
  have "one_terminal (t\<lparr> session := Opened \<rparr>)"
    by (rule one_terminal_quiet[OF o]) simp_all
  then have "one_terminal (snd (executeNextRequest beh (t\<lparr> session := Opened \<rparr>)))"
    by (rule one_terminal_executeNextRequest)
  with SessionOpen o show ?thesis by (simp add: turn_def)
next
  case (StatementSuccess v)
  have "one_terminal (t\<lparr> inflight := False \<rparr>)"
    by (rule one_terminal_quiet[OF o]) simp_all
  then have "one_terminal (snd (success beh v (t\<lparr> inflight := False \<rparr>)))"
    by (rule one_terminal_success)
  with StatementSuccess o show ?thesis by (simp add: turn_def)
next
  case (StatementError e)
  have "one_terminal (t\<lparr> inflight := False \<rparr>)"
    by (rule one_terminal_quiet[OF o]) simp_all
  then have "one_terminal (snd (error e (t\<lparr> inflight := False \<rparr>)))"
    by (rule one_terminal_error)
  with StatementError o show ?thesis by (simp add: turn_def)
next
  case (SuccessRetried v)
  obtain x t1 where s1: "success beh v (t\<lparr> inflight := False \<rparr>) = (x, t1)"
    by (cases "success beh v (t\<lparr> inflight := False \<rparr>)")
  have "one_terminal (t\<lparr> inflight := False \<rparr>)"
    by (rule one_terminal_quiet[OF o]) simp_all
  then have "one_terminal (snd (success beh v (t\<lparr> inflight := False \<rparr>)))"
    by (rule one_terminal_success)
  with s1 have 1: "one_terminal t1" by simp
  then have 2: "one_terminal (snd (success beh v t1))" by (rule one_terminal_success)
  show ?thesis using SuccessRetried s1 1 2 o
    by (cases x) (simp_all add: turn_def)
next
  case (ErrorRetried e e')
  obtain x t1 where e1: "error e (t\<lparr> inflight := False \<rparr>) = (x, t1)"
    by (cases "error e (t\<lparr> inflight := False \<rparr>)")
  have "one_terminal (t\<lparr> inflight := False \<rparr>)"
    by (rule one_terminal_quiet[OF o]) simp_all
  then have "one_terminal (snd (error e (t\<lparr> inflight := False \<rparr>)))"
    by (rule one_terminal_error)
  with e1 have 1: "one_terminal t1" by simp
  then have 2: "one_terminal (snd (error e' t1))" by (rule one_terminal_error)
  show ?thesis using ErrorRetried e1 1 2 o
    by (cases x) (simp_all add: turn_def)
next
  case (WebSqlError e)
  with o one_terminal_transactionError[OF o, of e] show ?thesis by (simp add: turn_def)
next
  case (Caller acts)
  with one_terminal_run_actions[OF o, of acts] show ?thesis by (simp add: turn_def)
qed

lemma one_terminal_step: "one_terminal t \<Longrightarrow> one_terminal (step beh t ev)"
proof -
  assume o: "one_terminal t"
  obtain x t' where tu: "turn beh ev t = (x, t')" by (cases "turn beh ev t")
  with one_terminal_turn[OF o, of beh ev] have o': "one_terminal t'" by simp
  show ?thesis
  proof (cases x)
    case None
    with tu o' show ?thesis by (simp add: step_def)
  next
    case (Some e)
    with tu one_terminal_event[OF o', of "Uncaught e"] show ?thesis by (simp add: step_def)
  qed
qed

lemma one_terminal_run: "one_terminal t \<Longrightarrow> one_terminal (run beh evs t)"
  unfolding run_def by (induction evs arbitrary: t) (simp_all add: one_terminal_step)

lemma one_terminal_new: "one_terminal (IDBTransaction m h1 h2 h3 h4)"
  by (simp add: one_terminal_def terminals_def IDBTransaction_def)

subsection \<open>The first event of \<open>success\<close>\<close>

lemma success_begins:
  assumes c: "cur t = Some q"
  shows "take (Suc (length (trace t))) (trace (snd (success beh v t)))
         = trace t @ [OnSuccess (rid q) v]"
proof -
  let ?u = "t\<lparr> results := (results t)(rid q \<mapsto> Succeeded v),
               trace := trace t @ [OnSuccess (rid q) v] \<rparr>"
  obtain x t2 where ra: "run_actions (onsuccess q) ?u = (x, t2)"
    by (cases "run_actions (onsuccess q) ?u")
  then have tr: "trace t2 = trace t @ [OnSuccess (rid q) v]"
    using run_actions_trace[of "onsuccess q" ?u] by simp
  show ?thesis
  proof (cases x)
    case None
    let ?w = "t2\<lparr> idx := Suc (idx t2) \<rparr>"
    have "emits (\<lambda>_. True) ?w (snd (executeNextRequest beh ?w))"
      by (rule emits_executeNextRequest) simp
    from emits_take[OF this] tr c ra None show ?thesis by (simp add: success_unfold)
  next
    case (Some e)
    with c ra tr show ?thesis by (simp add: success_unfold)
  qed
qed

lemma success_keeps_first:
  assumes "take (Suc n) (trace t1) = xs" and "n < length (trace t1)"
  shows "take (Suc n) (trace (snd (success beh v t1))) = xs"
proof -
  have "emits (\<lambda>_. True) t1 (snd (success beh v t1))" by (rule emits_success) simp
  then obtain es where "trace (snd (success beh v t1)) = trace t1 @ es"
    using emitsD by blast
  with assms show ?thesis by simp
qed

subsection \<open>The parameters of the \<open>INSERT\<close>\<close>

lemma map_of_obj_set:
  "map_of (obj_set k v xs) k' = (if k' = k then Some v else map_of xs k')"
  by (induction xs) auto

lemma map_of_index_params:
  assumes "k \<notin> set (map index_name ixs)"
  shows "map_of (foldl (\<lambda>pm ix. obj_set (index_name ix) (g ix) pm) pm0 ixs) k = map_of pm0 k"
  using assms by (induction ixs arbitrary: pm0) (simp_all add: map_of_obj_set)

lemma paramMap_key:
  assumes "''key'' \<notin> set (map index_name (indexes st))"
  shows "map_of (paramMap M st v pk) ''key'' =
           (if pk \<noteq> Undefined then Some (Key_encode M pk False) else None)"
  unfolding paramMap_def
  by (simp add: map_of_index_params[OF assms] map_of_obj_set)

lemma sql_delete_no_key: "Some k \<notin> set (map row_key (sql_delete tbl k))"
  by (auto simp: sql_delete_def)

lemma sql_insert_after_delete:
  assumes "map_of pm ''key'' = Some k \<or> map_of pm ''key'' = None"
  shows "sql_insert (sql_delete tbl k) pm enc
         = Some (sql_delete tbl k @ [\<lparr> cols = pm, value_col = enc \<rparr>])"
  using assms sql_delete_no_key[of k tbl]
  by (auto simp: sql_insert_def simp del: set_map)

text \<open>After the delete of \<open>put\<close>, the insert does not fail.\<close>

lemma insertData_after_delete:
  assumes "''key'' \<notin> set (map index_name (indexes st))"
  shows "fst (insertData M st (sql_delete tbl (Key_encode M pk False)) enc v pk)
         \<noteq> CallsError ConstraintError"
proof -
  have "map_of (paramMap M st v pk) ''key'' = Some (Key_encode M pk False) \<or>
        map_of (paramMap M st v pk) ''key'' = None"
    by (simp add: paramMap_key[OF assms])
  from sql_insert_after_delete[OF this]
  show ?thesis by (simp add: insertData_def split: sum.splits)
qed

lemma fst_in_callback_CallsError:
  "fst (in_callback r) = CallsError e \<longleftrightarrow> fst r = CallsError e"
  by (cases r rule: in_callback.cases) simp_all

text \<open>
  \<open>__deriveKey\<close> ends with what one of its continuations ends with; the only error it
  hands to \<open>failure\<close> is a DataError.
\<close>

lemma deriveKey_not_CallsError:
  assumes s: "\<And>pk v'. fst (success_k pk v') \<noteq> CallsError x"
    and f: "fst (failure_k DataError) \<noteq> CallsError x"
  shows "fst (deriveKey M st lookup v key success_k failure_k) \<noteq> CallsError x"
proof -
  have g: "\<And>cb. (\<And>k. fst (cb k) \<noteq> CallsError x) \<Longrightarrow>
             fst (getNextAutoIncKey lookup cb failure_k) \<noteq> CallsError x"
    using f by (simp add: getNextAutoIncKey_def fst_in_callback_CallsError split: answer.splits)
  have c: "\<And>k. fst (case Key_setValue M v (keyPath st) k of
                  None \<Rightarrow> failure_k DataError
                | Some v' \<Rightarrow> (case success_k k v' of
                               (Throws e, b) \<Rightarrow> failure_k DataError
                             | r \<Rightarrow> r)) \<noteq> CallsError x"
  proof -
    fix k
    show "fst (case Key_setValue M v (keyPath st) k of
                  None \<Rightarrow> failure_k DataError
                | Some v' \<Rightarrow> (case success_k k v' of
                               (Throws e, b) \<Rightarrow> failure_k DataError
                             | r \<Rightarrow> r)) \<noteq> CallsError x"
    proof (cases "Key_setValue M v (keyPath st) k")
      case None
      with f show ?thesis by simp
    next
      case (Some v')
      obtain r b where sk: "success_k k v' = (r, b)" by (cases "success_k k v'")
      with s[of k v'] have "r \<noteq> CallsError x" by simp
      with Some sk f show ?thesis by (cases r) simp_all
    qed
  qed
  show ?thesis
    using s g[OF c] g[of "\<lambda>k. success_k k v", OF s]
    by (simp add: deriveKey_def Let_def)
qed

lemma in_callback_insertData:
  "in_callback (insertData M st tbl enc v pk) = insertData M st tbl enc v pk"
  by (simp add: insertData_def split: option.splits sum.splits)

subsection \<open>Sums of numbers\<close>

lemma shift_of_small: "m < 2 ^ 53 \<Longrightarrow> shift_of m = 0"
  by (subst shift_of.simps) simp

lemma to_double_exact: "\<bar>x\<bar> < 2 ^ 53 \<Longrightarrow> to_double x = x"
proof -
  assume a: "\<bar>x\<bar> < 2 ^ 53"
  then have "nat \<bar>x\<bar> < 2 ^ 53" by simp
  then have s: "shift_of (nat \<bar>x\<bar>) = 0" by (rule shift_of_small)
  show ?thesis by (simp add: to_double_def s Let_def mult_sgn_abs)
qed

lemma js_add_exact: "\<bar>a + b\<bar> < 2 ^ 53 \<Longrightarrow> js_add a b = a + b"
  by (simp add: js_add_def to_double_exact)

lemma shift_of_53: "shift_of 9007199254740993 = 1"
  by (subst shift_of.simps, simp, subst shift_of.simps, simp)

lemma js_add_rounds: "js_add (2 ^ 53) 1 = 2 ^ 53"
  by (simp add: js_add_def to_double_def shift_of_53 Let_def)

subsection \<open>An inactive transaction stays inactive\<close>

lemma fire_request_error_active:
  "active (snd (fire_request_error e t)) \<Longrightarrow> active t"
proof (cases "cur t")
  case None
  assume "active (snd (fire_request_error e t))"
  with None show ?thesis by (simp add: fire_request_error_def)
next
  case (Some q)
  assume "active (snd (fire_request_error e t))"
  with Some have "active (snd (run_actions (onerror q)
      (t\<lparr> results := (results t)(rid q \<mapsto> Failed e), trace := trace t @ [OnError (rid q) e] \<rparr>)))"
    by (simp add: fire_request_error_def callback_def)
  from run_actions_active[OF this] show ?thesis by simp
qed

lemma frame_active: "frame t t' \<Longrightarrow> active t' \<Longrightarrow> active t"
  by (simp add: frame_def)

lemma error_active: "active (snd (error e t)) \<Longrightarrow> active t"
proof -
  assume a: "active (snd (error e t))"
  have "snd (error e t) = snd (transactionError e (snd (fire_request_error e t)))"
    by (simp add: error_def snd_try_finally)
  with a have "active (snd (transactionError e (snd (fire_request_error e t))))" by simp
  from frame_active[OF frame_transactionError this]
  show ?thesis by (rule fire_request_error_active)
qed

lemma executeNextRequest_active:
  assumes a: "active (snd (executeNextRequest beh t))"
  shows "active t"
proof (cases "idx t < length (requests t)")
  case False
  show ?thesis
  proof (rule ccontr)
    assume n: "\<not> active t"
    with False a show False by (simp add: executeNextRequest_drained)
  qed
next
  case True
  let ?u = "t\<lparr> cur := Some (requests t ! idx t),
               trace := trace t @ [OpBegin (rid (requests t ! idx t))] \<rparr>"
  show ?thesis
  proof (cases "beh (op (requests t ! idx t))")
    case CallsBackend
    with True a show ?thesis by (simp add: executeNextRequest_calls)
  next
    case (ThrowsSync e)
    with True a have "active (snd (error e ?u))" by (simp add: executeNextRequest_throws)
    from error_active[OF this] show ?thesis by simp
  next
    case (FailsSync e)
    obtain x t' where r: "error e ?u = (x, t')" by (cases "error e ?u")
    have "active t'"
    proof (cases x)
      case None
      with True a FailsSync r show ?thesis by (simp add: executeNextRequest_fails)
    next
      case (Some e')
      with True a FailsSync r have "active (snd (error e' t'))"
        by (simp add: executeNextRequest_fails)
      then show ?thesis by (rule error_active)
    qed
    with r have "active (snd (error e ?u))" by simp
    from error_active[OF this] show ?thesis by simp
  qed
qed

lemma success_active:
  assumes a: "active (snd (success beh v t))"
  shows "active t"
proof (cases "cur t")
  case None
  with a show ?thesis by (simp add: success_def)
next
  case (Some q)
  let ?u = "t\<lparr> results := (results t)(rid q \<mapsto> Succeeded v),
               trace := trace t @ [OnSuccess (rid q) v] \<rparr>"
  obtain x t' where r: "run_actions (onsuccess q) ?u = (x, t')"
    by (cases "run_actions (onsuccess q) ?u")
  have "active t'"
  proof (cases x)
    case None
    with a Some r have "active (snd (executeNextRequest beh (t'\<lparr> idx := Suc (idx t') \<rparr>)))"
      by (simp add: success_unfold)
    from executeNextRequest_active[OF this] show ?thesis by simp
  next
    case (Some e)
    with a \<open>cur t = Some q\<close> r show ?thesis by (simp add: success_unfold)
  qed
  with r have "active (snd (run_actions (onsuccess q) ?u))" by simp
  from run_actions_active[OF this] show ?thesis by simp
qed

lemma turn_active:
  assumes a: "active (snd (turn beh ev t))"
  shows "active t"
proof (cases ev)
  case Timeout
  show ?thesis
  proof (cases "timers t")
    case Nil
    with a Timeout show ?thesis by (simp add: turn_def)
  next
    case (Cons x ts)
    show ?thesis
    proof (cases x)
      case StartTimer
      with a Timeout Cons show ?thesis by (simp add: turn_def executeRequests_def split: if_splits)
    next
      case AbortTimer
      with a Timeout Cons have "active (snd (run_actions (onabort t)
          (t\<lparr> timers := ts, trace := trace t @ [OnAbort] \<rparr>)))"
        by (simp add: turn_def callback_def)
      from run_actions_active[OF this] show ?thesis by simp
    qed
  qed
next
  case SessionOpen
  show ?thesis
  proof (cases "session t = Requested")
    case True
    with a SessionOpen have "active (snd (executeNextRequest beh (t\<lparr> session := Opened \<rparr>)))"
      by (simp add: turn_def)
    from executeNextRequest_active[OF this] show ?thesis by simp
  next
    case False
    with a SessionOpen show ?thesis by (simp add: turn_def)
  qed
next
  case (StatementSuccess v)
  show ?thesis
  proof (cases "inflight t")
    case True
    with a StatementSuccess have "active (snd (success beh v (t\<lparr> inflight := False \<rparr>)))"
      by (simp add: turn_def)
    from success_active[OF this] show ?thesis by simp
  next
    case False
    with a StatementSuccess show ?thesis by (simp add: turn_def)
  qed
next
  case (StatementError e)
  show ?thesis
  proof (cases "inflight t")
    case True
    with a StatementError have "active (snd (error e (t\<lparr> inflight := False \<rparr>)))"
      by (simp add: turn_def)
    from error_active[OF this] show ?thesis by simp
  next
    case False
    with a StatementError show ?thesis by (simp add: turn_def)
  qed
next
  case (SuccessRetried v)
  show ?thesis
  proof (cases "inflight t")
    case True
    obtain x t' where r: "success beh v (t\<lparr> inflight := False \<rparr>) = (x, t')"
      by (cases "success beh v (t\<lparr> inflight := False \<rparr>)")
    have "active t'"
    proof (cases x)
      case None
      with a SuccessRetried True r show ?thesis by (simp add: turn_def)
    next
      case (Some e)
      with a SuccessRetried True r have "active (snd (success beh v t'))" by (simp add: turn_def)
      then show ?thesis by (rule success_active)
    qed
    with r have "active (snd (success beh v (t\<lparr> inflight := False \<rparr>)))" by simp
    from success_active[OF this] show ?thesis by simp
  next
    case False
    with a SuccessRetried show ?thesis by (simp add: turn_def)
  qed
next
  case (ErrorRetried e e')
  show ?thesis
  proof (cases "inflight t")
    case True
    obtain x t' where r: "error e (t\<lparr> inflight := False \<rparr>) = (x, t')"
      by (cases "error e (t\<lparr> inflight := False \<rparr>)")
    have "active t'"
    proof (cases x)
      case None
      with a ErrorRetried True r show ?thesis by (simp add: turn_def)
    next
      case (Some e2)
      with a ErrorRetried True r have "active (snd (error e' t'))" by (simp add: turn_def)
      then show ?thesis by (rule error_active)
    qed
    with r have "active (snd (error e (t\<lparr> inflight := False \<rparr>)))" by simp
    from error_active[OF this] show ?thesis by simp
  next
    case False
    with a ErrorRetried show ?thesis by (simp add: turn_def)
  qed
next
  case (WebSqlError e)
  show ?thesis
  proof (cases "session t = NoSession")
    case True
    with a WebSqlError show ?thesis by (simp add: turn_def)
  next
    case False
    with a WebSqlError have "active (snd (transactionError e t))" by (simp add: turn_def)
    from frame_active[OF frame_transactionError this] show ?thesis .
  qed
next
  case (Caller acts)
  with a have "active (snd (run_actions acts t))" by (simp add: turn_def)
  then show ?thesis by (rule run_actions_active)
qed

lemma step_active: "active (step beh t ev) \<Longrightarrow> active t"
proof -
  assume a: "active (step beh t ev)"
  obtain x t' where r: "turn beh ev t = (x, t')" by (cases "turn beh ev t")
  with a have "active t'" by (cases x) (simp_all add: step_def)
  with r have "active (snd (turn beh ev t))" by simp
  then show ?thesis by (rule turn_active)
qed

lemma run_inactive: "\<not> active t \<Longrightarrow> \<not> active (run beh evs t)"
  unfolding run_def
proof (induction evs arbitrary: t)
  case Nil
  then show ?case by simp
next
  case (Cons ev evs)
  from Cons(2) have "\<not> active (step beh t ev)" using step_active by blast
  from Cons(1)[OF this] show ?case by simp
qed

subsection \<open>Where the abort notifications come from\<close>

lemma abort_excess_cong:
  "trace t' = trace t \<Longrightarrow> timers t' = timers t \<Longrightarrow> abort_calls t' = abort_calls t \<Longrightarrow>
   abort_excess t' = abort_excess t"
  by (simp add: abort_excess_def aborts_pending_def)

lemma abort_excess_event:
  "abort_excess (t\<lparr> trace := trace t @ [ev] \<rparr>) =
     abort_excess t + (if ev = OnAbort then 1 else 0) - (if is_tx_error ev then 1 else 0)"
  by (simp add: abort_excess_def aborts_pending_def aborts_fired_def tx_errors_def)

lemma abort_excess_abort: "abort_excess (abort t) = abort_excess t + 1"
  by (simp add: abort_excess_def aborts_pending_def abort_def)

lemma abort_excess_run_actions: "abort_excess (snd (run_actions h t)) = abort_excess t"
proof (induction h t rule: run_actions.induct)
  case (2 f hs he as t)
  show ?case
  proof (cases "active t")
    case True
    let ?u = "t\<lparr> requests := requests t @
                       [\<lparr> rid = created t, op = f, onsuccess = hs, onerror = he \<rparr>],
                     created := Suc (created t) \<rparr>"
    from True have p: "pushToQueue f hs he t = (None, ?u)" by (simp add: pushToQueue_if)
    from 2[OF p[symmetric] refl] have "abort_excess (snd (run_actions as ?u)) = abort_excess ?u" .
    moreover have "abort_excess ?u = abort_excess t" by (rule abort_excess_cong) simp_all
    ultimately show ?thesis using p by simp
  next
    case False
    then show ?thesis by (simp add: pushToQueue_if)
  qed
next
  case (3 as t)
  have "abort_excess (abort (t\<lparr> abort_calls := Suc (abort_calls t) \<rparr>)) = abort_excess t"
    by (simp add: abort_excess_def aborts_pending_def abort_def)
  with 3 show ?case by simp
qed simp_all

lemma abort_excess_callback:
  "abort_excess (snd (callback ev h t)) =
     abort_excess t + (if ev = OnAbort then 1 else 0) - (if is_tx_error ev then 1 else 0)"
  by (simp add: callback_def abort_excess_run_actions abort_excess_event)

lemma abort_excess_transactionError:
  "abort_excess (snd (transactionError e t)) = abort_excess t"
proof (cases "errored t")
  case True
  then show ?thesis by (simp add: transactionError_errored)
next
  case False
  show ?thesis
  proof (cases "active t")
    case False
    have "abort_excess (t\<lparr> errored := True \<rparr>) = abort_excess t"
      by (rule abort_excess_cong) simp_all
    with False \<open>\<not> errored t\<close> show ?thesis by (simp add: transactionError_inactive)
  next
    case True
    have c: "abort_excess (t\<lparr> errored := True, tx_error := Some e \<rparr>) = abort_excess t"
      by (rule abort_excess_cong) simp_all
    from True \<open>\<not> errored t\<close> show ?thesis
      by (simp add: transactionError_active Let_def abort_excess_abort abort_excess_callback c)
  qed
qed

lemma abort_excess_transactionFinished:
  "abort_excess (snd (transactionFinished t)) = abort_excess t"
proof -
  obtain x t' where r: "callback OnComplete (oncomplete t) t = (x, t')"
    by (cases "callback OnComplete (oncomplete t) t")
  have "abort_excess (snd (callback OnComplete (oncomplete t) t)) = abort_excess t"
    by (simp add: abort_excess_callback)
  with r have t': "abort_excess t' = abort_excess t" by simp
  have e: "abort_excess (t'\<lparr> errored := True \<rparr>) = abort_excess t'"
    by (rule abort_excess_cong) simp_all
  show ?thesis using r t' e
    by (cases x) (simp_all add: transactionFinished_def abort_excess_event)
qed

lemma abort_excess_fire_request_error:
  "abort_excess (snd (fire_request_error e t)) = abort_excess t"
proof (cases "cur t")
  case None
  then show ?thesis by (simp add: fire_request_error_def)
next
  case (Some q)
  have "abort_excess (t\<lparr> results := (results t)(rid q \<mapsto> Failed e) \<rparr>) = abort_excess t"
    by (rule abort_excess_cong) simp_all
  with Some show ?thesis by (simp add: fire_request_error_def abort_excess_callback)
qed

lemma abort_excess_error: "abort_excess (snd (error e t)) = abort_excess t"
  by (simp add: error_def snd_try_finally abort_excess_transactionError
      abort_excess_fire_request_error)

lemma abort_excess_executeNextRequest:
  "abort_excess (snd (executeNextRequest beh t)) = abort_excess t"
proof (cases "idx t < length (requests t)")
  case False
  have a: "abort_excess (t\<lparr> requests := [], active := False \<rparr>) = abort_excess t"
    by (rule abort_excess_cong) simp_all
  have b: "abort_excess (t\<lparr> requests := [] \<rparr>) = abort_excess t"
    by (rule abort_excess_cong) simp_all
  from False show ?thesis
    by (simp add: executeNextRequest_drained abort_excess_transactionFinished a b)
next
  case True
  let ?u = "t\<lparr> cur := Some (requests t ! idx t),
               trace := trace t @ [OpBegin (rid (requests t ! idx t))] \<rparr>"
  have u: "abort_excess ?u = abort_excess t"
    by (simp add: abort_excess_def aborts_pending_def aborts_fired_def tx_errors_def)
  show ?thesis
  proof (cases "beh (op (requests t ! idx t))")
    case CallsBackend
    have "abort_excess (?u\<lparr> inflight := True \<rparr>) = abort_excess ?u"
      by (rule abort_excess_cong) simp_all
    with True CallsBackend u show ?thesis by (simp add: executeNextRequest_calls)
  next
    case (ThrowsSync e)
    with True u show ?thesis by (simp add: executeNextRequest_throws abort_excess_error)
  next
    case (FailsSync e)
    obtain x t' where r: "error e ?u = (x, t')" by (cases "error e ?u")
    have "abort_excess (snd (error e ?u)) = abort_excess ?u" by (rule abort_excess_error)
    with r u have t': "abort_excess t' = abort_excess t" by simp
    show ?thesis using True FailsSync r t'
      by (cases x) (simp_all add: executeNextRequest_fails abort_excess_error)
  qed
qed

lemma abort_excess_success: "abort_excess (snd (success beh v t)) = abort_excess t"
proof (cases "cur t")
  case None
  then show ?thesis by (simp add: success_def)
next
  case (Some q)
  let ?u = "t\<lparr> results := (results t)(rid q \<mapsto> Succeeded v),
               trace := trace t @ [OnSuccess (rid q) v] \<rparr>"
  have u: "abort_excess ?u = abort_excess t"
    by (simp add: abort_excess_def aborts_pending_def aborts_fired_def tx_errors_def)
  obtain x t' where r: "run_actions (onsuccess q) ?u = (x, t')"
    by (cases "run_actions (onsuccess q) ?u")
  have "abort_excess (snd (run_actions (onsuccess q) ?u)) = abort_excess ?u"
    by (rule abort_excess_run_actions)
  with r u have t': "abort_excess t' = abort_excess t" by simp
  have i: "abort_excess (t'\<lparr> idx := Suc (idx t') \<rparr>) = abort_excess t'"
    by (rule abort_excess_cong) simp_all
  show ?thesis using Some r t' i
    by (cases x) (simp_all add: success_unfold abort_excess_executeNextRequest)
qed

lemma abort_excess_turn: "abort_excess (snd (turn beh ev t)) = abort_excess t"
proof (cases ev)
  case Timeout
  show ?thesis
  proof (cases "timers t")
    case Nil
    with Timeout show ?thesis by (simp add: turn_def)
  next
    case (Cons x ts)
    show ?thesis
    proof (cases x)
      case StartTimer
      have "abort_excess (t\<lparr> timers := ts \<rparr>) = abort_excess t"
        using Cons StartTimer by (simp add: abort_excess_def aborts_pending_def)
      moreover have "abort_excess (t\<lparr> timers := ts, running := True, session := Requested \<rparr>)
                     = abort_excess (t\<lparr> timers := ts \<rparr>)"
        by (rule abort_excess_cong) simp_all
      ultimately show ?thesis using Timeout Cons StartTimer
        by (simp add: turn_def executeRequests_def)
    next
      case AbortTimer
      have "abort_excess (t\<lparr> timers := ts \<rparr>) = abort_excess t - 1"
        using Cons AbortTimer by (simp add: abort_excess_def aborts_pending_def)
      with Timeout Cons AbortTimer show ?thesis
        by (simp add: turn_def abort_excess_callback)
    qed
  qed
next
  case SessionOpen
  have "abort_excess (t\<lparr> session := Opened \<rparr>) = abort_excess t"
    by (rule abort_excess_cong) simp_all
  with SessionOpen show ?thesis by (simp add: turn_def abort_excess_executeNextRequest)
next
  case (StatementSuccess v)
  have "abort_excess (t\<lparr> inflight := False \<rparr>) = abort_excess t"
    by (rule abort_excess_cong) simp_all
  with StatementSuccess show ?thesis by (simp add: turn_def abort_excess_success)
next
  case (StatementError e)
  have "abort_excess (t\<lparr> inflight := False \<rparr>) = abort_excess t"
    by (rule abort_excess_cong) simp_all
  with StatementError show ?thesis by (simp add: turn_def abort_excess_error)
next
  case (SuccessRetried v)
  have i: "abort_excess (t\<lparr> inflight := False \<rparr>) = abort_excess t"
    by (rule abort_excess_cong) simp_all
  obtain x t' where r: "success beh v (t\<lparr> inflight := False \<rparr>) = (x, t')"
    by (cases "success beh v (t\<lparr> inflight := False \<rparr>)")
  have "abort_excess (snd (success beh v (t\<lparr> inflight := False \<rparr>)))
        = abort_excess (t\<lparr> inflight := False \<rparr>)"
    by (rule abort_excess_success)
  with r i have t': "abort_excess t' = abort_excess t" by simp
  show ?thesis using SuccessRetried r t'
    by (cases x) (simp_all add: turn_def abort_excess_success)
next
  case (ErrorRetried e e')
  have i: "abort_excess (t\<lparr> inflight := False \<rparr>) = abort_excess t"
    by (rule abort_excess_cong) simp_all
  obtain x t' where r: "error e (t\<lparr> inflight := False \<rparr>) = (x, t')"
    by (cases "error e (t\<lparr> inflight := False \<rparr>)")
  have "abort_excess (snd (error e (t\<lparr> inflight := False \<rparr>)))
        = abort_excess (t\<lparr> inflight := False \<rparr>)"
    by (rule abort_excess_error)
  with r i have t': "abort_excess t' = abort_excess t" by simp
  show ?thesis using ErrorRetried r t'
    by (cases x) (simp_all add: turn_def abort_excess_error)
next
  case (WebSqlError e)
  then show ?thesis by (simp add: turn_def abort_excess_transactionError)
next
  case (Caller acts)
  then show ?thesis by (simp add: turn_def abort_excess_run_actions)
qed

lemma abort_excess_step: "abort_excess (step beh t ev) = abort_excess t"
proof -
  obtain x t' where r: "turn beh ev t = (x, t')" by (cases "turn beh ev t")
  have "abort_excess (snd (turn beh ev t)) = abort_excess t" by (rule abort_excess_turn)
  with r have "abort_excess t' = abort_excess t" by simp
  with r show ?thesis by (cases x) (simp_all add: step_def abort_excess_event)
qed

lemma abort_excess_run: "abort_excess (run beh evs t) = abort_excess t"
  unfolding run_def
  by (induction evs arbitrary: t) (simp_all add: abort_excess_step)

lemma abort_excess_new: "abort_excess (IDBTransaction m h1 h2 h3 h4) = 0"
  by (simp add: abort_excess_def aborts_pending_def aborts_fired_def tx_errors_def
      IDBTransaction_def)

lemma terminals_split: "terminals tr = completions tr + tx_errors tr"
proof (induction tr)
  case Nil
  show ?case by (simp add: terminals_def completions_def tx_errors_def)
next
  case (Cons ev tr)
  then show ?case by (cases ev) (simp_all add: terminals_def completions_def tx_errors_def)
qed

subsection \<open>The queue advances while the operations succeed\<close>

lemma new_events_append: "trace t' = trace t @ es \<Longrightarrow> new_events t t' = es"
  by (simp add: new_events_def)

lemma error_trace:
  assumes c: "cur t = Some q"
  shows "\<exists>es. trace (snd (error e t)) = trace t @ OnError (rid q) e # es"
proof -
  let ?u = "snd (run_actions (onerror q)
          (t\<lparr> results := (results t)(rid q \<mapsto> Failed e),
              trace := trace t @ [OnError (rid q) e] \<rparr>))"
  obtain es where "trace (snd (transactionError e ?u)) = trace ?u @ es"
    using transactionError_trace_grows[of e ?u] by blast
  then have "trace (snd (error e t)) = trace t @ OnError (rid q) e # es"
    using c by (simp add: error_unfold)
  then show ?thesis by blast
qed

lemma error_grows: "\<exists>es. trace (snd (error e t)) = trace t @ es"
proof -
  have "emits (\<lambda>_. True) t (snd (error e t))" by (rule emits_error) simp_all
  from emitsD[OF this] show ?thesis by blast
qed

lemma executeNextRequest_progress:
  assumes lt: "idx t < length (requests t)"
  shows "\<exists>es. trace (snd (executeNextRequest beh t))
               = trace t @ OpBegin (rid (requests t ! idx t)) # es \<and>
              (list_ex is_failure es \<or>
               (fst (executeNextRequest beh t) = None \<and>
                inflight (snd (executeNextRequest beh t)) \<and>
                idx (snd (executeNextRequest beh t)) = idx t \<and>
                requests (snd (executeNextRequest beh t)) = requests t))"
proof -
  let ?q = "requests t ! idx t"
  let ?u = "t\<lparr> cur := Some ?q, trace := trace t @ [OpBegin (rid ?q)] \<rparr>"
  have cu: "cur ?u = Some ?q" by simp
  show ?thesis
  proof (cases "beh (op ?q)")
    case CallsBackend
    with lt have "executeNextRequest beh t = (None, ?u\<lparr> inflight := True \<rparr>)"
      by (simp add: executeNextRequest_calls)
    then show ?thesis by simp
  next
    case (ThrowsSync e)
    obtain es where "trace (snd (error e ?u)) = trace ?u @ OnError (rid ?q) e # es"
      using error_trace[OF cu, of e] by blast
    with lt ThrowsSync have "trace (snd (executeNextRequest beh t))
               = trace t @ OpBegin (rid ?q) # (OnError (rid ?q) e # es)"
      by (simp add: executeNextRequest_throws)
    moreover have "list_ex is_failure (OnError (rid ?q) e # es)" by simp
    ultimately show ?thesis by blast
  next
    case (FailsSync e)
    obtain x t' where r: "error e ?u = (x, t')" by (cases "error e ?u")
    obtain es where "trace (snd (error e ?u)) = trace ?u @ OnError (rid ?q) e # es"
      using error_trace[OF cu, of e] by blast
    with r have t': "trace t' = trace t @ OpBegin (rid ?q) # (OnError (rid ?q) e # es)" by simp
    show ?thesis
    proof (cases x)
      case None
      with lt FailsSync r have "snd (executeNextRequest beh t) = t'"
        by (simp add: executeNextRequest_fails)
      with t' have "trace (snd (executeNextRequest beh t))
               = trace t @ OpBegin (rid ?q) # (OnError (rid ?q) e # es)" by simp
      moreover have "list_ex is_failure (OnError (rid ?q) e # es)" by simp
      ultimately show ?thesis by blast
    next
      case (Some e')
      with lt FailsSync r have s: "snd (executeNextRequest beh t) = snd (error e' t')"
        by (simp add: executeNextRequest_fails)
      obtain es' where "trace (snd (error e' t')) = trace t' @ es'"
        using error_grows[of e' t'] by blast
      with s t' have "trace (snd (executeNextRequest beh t))
               = trace t @ OpBegin (rid ?q) # (OnError (rid ?q) e # es @ es')" by simp
      moreover have "list_ex is_failure (OnError (rid ?q) e # es @ es')" by simp
      ultimately show ?thesis by blast
    qed
  qed
qed

lemma step_trace:
  "\<exists>xs. trace (step beh t ev) = trace (snd (turn beh ev t)) @ xs \<and>
        (fst (turn beh ev t) = None \<longrightarrow> step beh t ev = snd (turn beh ev t))"
proof -
  obtain x t' where r: "turn beh ev t = (x, t')" by (cases "turn beh ev t")
  then show ?thesis by (cases x) (simp_all add: step_def)
qed


lemma success_turn_progress:
  assumes s: "sched_ok t" and f: "inflight t" and n: "Suc (idx t) < length (requests t)"
  shows "\<exists>es. trace (step beh t (StatementSuccess v)) = trace t @ es \<and>
          (list_ex is_failure es \<or>
           (OpBegin (Suc (idx t)) \<in> set es \<and>
            sched_ok (step beh t (StatementSuccess v)) \<and>
            inflight (step beh t (StatementSuccess v)) \<and>
            idx (step beh t (StatementSuccess v)) = Suc (idx t) \<and>
            length (requests t) \<le> length (requests (step beh t (StatementSuccess v)))))"
proof -
  let ?ev = "StatementSuccess v :: 'a turn"
  let ?q = "requests t ! idx t"
  from s f have qo: "queue_ok t"
    and o: "in_order (0, False) (trace t) = Some (idx t, True)"
    and c: "cur t = Some ?q"
    by (auto simp: sched_ok_def)
  from n have lt: "idx t < length (requests t)" by simp
  have rq: "rid ?q = idx t" by (rule queue_ok_rid[OF qo lt])
  let ?s = "t\<lparr> inflight := False \<rparr>"
  have tu: "turn beh ?ev t = success beh v ?s" using f by (simp add: turn_def)
  have qs: "queue_ok ?s" using qo by (simp add: queue_ok_def)
  have ok: "sched_ok (snd (success beh v ?s))"
    using success_ok[of ?s ?q beh v] c rq qs o by simp
  let ?u = "?s\<lparr> results := (results ?s)(rid ?q \<mapsto> Succeeded v),
                 trace := trace ?s @ [OnSuccess (rid ?q) v] \<rparr>"
  obtain x t2 where r: "run_actions (onsuccess ?q) ?u = (x, t2)"
    by (cases "run_actions (onsuccess ?q) ?u")
  have "trace (snd (run_actions (onsuccess ?q) ?u)) = trace ?u" by simp
  with r have tr2: "trace t2 = trace t @ [OnSuccess (rid ?q) v]" by simp
  have "idx (snd (run_actions (onsuccess ?q) ?u)) = idx ?u" by simp
  with r have i2: "idx t2 = idx t" by simp
  have "length (requests ?u) \<le> length (requests (snd (run_actions (onsuccess ?q) ?u)))"
    using run_actions_requests[of ?u "onsuccess ?q"] by blast
  with r have l2: "length (requests t) \<le> length (requests t2)" by simp
  have "take (length (requests ?u)) (requests (snd (run_actions (onsuccess ?q) ?u))) = requests ?u"
    using run_actions_requests[of ?u "onsuccess ?q"] by blast
  with r have k2: "take (length (requests t)) (requests t2) = requests t" by simp
  have "queue_ok ?u" using qo by (simp add: queue_ok_def)
  from run_actions_queue_ok[OF this, of "onsuccess ?q"] r have q2: "queue_ok t2" by simp
  have cs: "cur ?s = Some ?q" using c by simp
  from step_trace[of beh t ?ev] obtain xs where
    both: "trace (step beh t ?ev) = trace (snd (turn beh ?ev t)) @ xs \<and>
           (fst (turn beh ?ev t) = None \<longrightarrow> step beh t ?ev = snd (turn beh ?ev t))" ..
  from both have xs: "trace (step beh t ?ev) = trace (snd (turn beh ?ev t)) @ xs"
    by (rule conjunct1)
  from both have st: "fst (turn beh ?ev t) = None \<longrightarrow> step beh t ?ev = snd (turn beh ?ev t)"
    by (rule conjunct2)
  have un: "success beh v ?s =
     (case run_actions (onsuccess ?q) ?u of
        (Some e, t') \<Rightarrow> (Some e, t')
      | (None, t') \<Rightarrow> executeNextRequest beh (t'\<lparr> idx := Suc (idx t') \<rparr>))"
    by (rule success_unfold[OF cs])
  show ?thesis
  proof (cases x)
    case (Some e)
    have "success beh v ?s = (Some e, t2)" unfolding un r Some by simp
    with tu have "turn beh ?ev t = (Some e, t2)" by simp
    then have "trace (step beh t ?ev) = trace t2 @ [Uncaught e]" by (simp add: step_def)
    with tr2 have "trace (step beh t ?ev) = trace t @ [OnSuccess (rid ?q) v, Uncaught e]" by simp
    moreover have "list_ex is_failure [OnSuccess (rid ?q) v, Uncaught e]" by simp
    ultimately show ?thesis by blast
  next
    case None
    let ?w = "t2\<lparr> idx := Suc (idx t2) \<rparr>"
    have su: "success beh v ?s = executeNextRequest beh ?w" unfolding un r None by simp
    have lw: "idx ?w < length (requests ?w)" using n i2 l2 by simp
    have qw: "queue_ok ?w" using q2 by (simp add: queue_ok_def)
    have rw: "rid (requests ?w ! idx ?w) = Suc (idx t)"
      using queue_ok_rid[OF qw lw] i2 by simp
    obtain es where es: "trace (snd (executeNextRequest beh ?w))
               = trace ?w @ OpBegin (rid (requests ?w ! idx ?w)) # es"
      and alt: "list_ex is_failure es \<or>
               (fst (executeNextRequest beh ?w) = None \<and>
                inflight (snd (executeNextRequest beh ?w)) \<and>
                idx (snd (executeNextRequest beh ?w)) = idx ?w \<and>
                requests (snd (executeNextRequest beh ?w)) = requests ?w)"
      using executeNextRequest_progress[OF lw, of beh] by blast
    from es rw tr2 have tn: "trace (snd (turn beh ?ev t))
        = trace t @ OnSuccess (rid ?q) v # OpBegin (Suc (idx t)) # es"
      using tu su by simp
    from alt show ?thesis
    proof
      assume fl: "list_ex is_failure es"
      from tn xs have "trace (step beh t ?ev)
          = trace t @ (OnSuccess (rid ?q) v # OpBegin (Suc (idx t)) # es @ xs)" by simp
      moreover have "list_ex is_failure (OnSuccess (rid ?q) v # OpBegin (Suc (idx t)) # es @ xs)"
        using fl by simp
      ultimately show ?thesis by blast
    next
      assume g: "fst (executeNextRequest beh ?w) = None \<and>
                inflight (snd (executeNextRequest beh ?w)) \<and>
                idx (snd (executeNextRequest beh ?w)) = idx ?w \<and>
                requests (snd (executeNextRequest beh ?w)) = requests ?w"
      then have "fst (turn beh ?ev t) = None" using tu su by simp
      with st have eq: "step beh t ?ev = snd (executeNextRequest beh ?w)" using tu su by simp
      have a: "trace (step beh t ?ev)
          = trace t @ (OnSuccess (rid ?q) v # OpBegin (Suc (idx t)) # es)"
        using eq tn tu su by simp
      have b: "OpBegin (Suc (idx t)) \<in> set (OnSuccess (rid ?q) v # OpBegin (Suc (idx t)) # es)"
        by simp
      have c1: "sched_ok (step beh t ?ev)" using ok eq su by simp
      have c2: "inflight (step beh t ?ev)" using g eq by simp
      have c3: "idx (step beh t ?ev) = Suc (idx t)" using g eq i2 by simp
      have c4: "length (requests t) \<le> length (requests (step beh t ?ev))" using g eq l2 by simp
      show ?thesis using a b c1 c2 c3 c4 by blast
    qed
  qed
qed

lemma run_success_grows:
  "\<exists>es. trace (run beh (map StatementSuccess vs) t) = trace t @ es"
proof (induction vs arbitrary: t)
  case Nil
  show ?case by (simp add: run_def)
next
  case (Cons v vs)
  have "emits (\<lambda>_. True) t (step beh t (StatementSuccess v))"
    by (rule emits_step) simp_all
  from emitsD[OF this] obtain es1 where e1: "trace (step beh t (StatementSuccess v)) = trace t @ es1"
    by blast
  from Cons[of "step beh t (StatementSuccess v)"] obtain es2 where
    "trace (run beh (map StatementSuccess vs) (step beh t (StatementSuccess v)))
       = trace (step beh t (StatementSuccess v)) @ es2" by blast
  with e1 have "trace (run beh (map StatementSuccess (v # vs)) t) = trace t @ (es1 @ es2)"
    by (simp add: run_def)
  then show ?case by blast
qed

lemma queued_operation_started:
  assumes s: "sched_ok t" and f: "inflight t" and i: "idx t < p" and p: "p < length (requests t)"
    and l: "length vs = p - idx t"
  shows "\<exists>es. trace (run beh (map StatementSuccess vs) t) = trace t @ es \<and>
              (list_ex is_failure es \<or> OpBegin p \<in> set es)"
  using s f i p l
proof (induction vs arbitrary: t)
  case Nil
  then show ?case by simp
next
  case (Cons v vs)
  let ?t' = "step beh t (StatementSuccess v)"
  have r: "run beh (map StatementSuccess (v # vs)) t = run beh (map StatementSuccess vs) ?t'"
    by (simp add: run_def)
  from Cons(4,5) have n: "Suc (idx t) < length (requests t)" by simp
  obtain es1 where e1: "trace ?t' = trace t @ es1"
    and alt: "list_ex is_failure es1 \<or>
           (OpBegin (Suc (idx t)) \<in> set es1 \<and> sched_ok ?t' \<and> inflight ?t' \<and>
            idx ?t' = Suc (idx t) \<and> length (requests t) \<le> length (requests ?t'))"
    using success_turn_progress[OF Cons(2) Cons(3) n, of beh v] by blast
  obtain es2 where e2: "trace (run beh (map StatementSuccess vs) ?t') = trace ?t' @ es2"
    using run_success_grows[of beh vs ?t'] by blast
  from alt show ?case
  proof
    assume "list_ex is_failure es1"
    then have "list_ex is_failure (es1 @ es2)" by simp
    moreover have "trace (run beh (map StatementSuccess (v # vs)) t) = trace t @ (es1 @ es2)"
      using r e1 e2 by simp
    ultimately show ?thesis by blast
  next
    assume g: "OpBegin (Suc (idx t)) \<in> set es1 \<and> sched_ok ?t' \<and> inflight ?t' \<and>
            idx ?t' = Suc (idx t) \<and> length (requests t) \<le> length (requests ?t')"
    show ?thesis
    proof (cases "Suc (idx t) = p")
      case True
      with g have "OpBegin p \<in> set (es1 @ es2)" by simp
      moreover have "trace (run beh (map StatementSuccess (v # vs)) t) = trace t @ (es1 @ es2)"
        using r e1 e2 by simp
      ultimately show ?thesis by blast
    next
      case False
      with Cons(4) g have i': "idx ?t' < p" by simp
      from Cons(5) g have p': "p < length (requests ?t')" by simp
      from Cons(6) g have l': "length vs = p - idx ?t'" by simp
      from g have s': "sched_ok ?t'" and f': "inflight ?t'" by blast+
      obtain es3 where e3: "trace (run beh (map StatementSuccess vs) ?t') = trace ?t' @ es3"
        and a3: "list_ex is_failure es3 \<or> OpBegin p \<in> set es3"
        using Cons(1)[OF s' f' i' p' l'] by blast
      have "trace (run beh (map StatementSuccess (v # vs)) t) = trace t @ (es1 @ es3)"
        using r e1 e3 by simp
      moreover have "list_ex is_failure (es1 @ es3) \<or> OpBegin p \<in> set (es1 @ es3)"
        using a3 by auto
      ultimately show ?thesis by blast
    qed
  qed
qed

section \<open>Synchronous validation of \<open>add\<close> and \<open>put\<close>\<close>

text \<open>
  Claim C7. \<open>add\<close> and \<open>put\<close> check the key against the schema of the store before they
  queue anything: each call below that fails returns the transaction as it was.
  With a key path, a key argument gives a DataError. With a key path, no key argument
  and an object as value whose key path yields nothing, the call gives a DataError,
  unless the store has auto-increment: then the key check passes and no DataError is
  raised. Without a key path and without a key argument the same holds.
  A store has a key path when \<open>keyPath\<close> is truthy, as the source tests it.
\<close>

theorem add_put_validate_key:
  assumes "args \<noteq> []"
  shows "(truthy (keyPath st) \<and> arg args 1 \<noteq> Undefined \<longrightarrow>
            add M st args hs he t = (Some DataError, t) \<and>
            put M st args hs he t = (Some DataError, t))
       \<and> (truthy (keyPath st) \<and> arg args 1 = Undefined \<and>
            truthy (arg args 0) \<and> typeof_object (arg args 0) \<and>
            Key_getValue M (arg args 0) (keyPath st) = Undefined \<longrightarrow>
            (if autoIncrement st
             then validateKey M st (arg args 0) (arg args 1) = Inr () \<and>
                  fst (add M st args hs he t) \<noteq> Some DataError \<and>
                  fst (put M st args hs he t) \<noteq> Some DataError
             else add M st args hs he t = (Some DataError, t) \<and>
                  put M st args hs he t = (Some DataError, t)))
       \<and> (\<not> truthy (keyPath st) \<and> arg args 1 = Undefined \<longrightarrow>
            (if autoIncrement st
             then validateKey M st (arg args 0) (arg args 1) = Inr () \<and>
                  fst (add M st args hs he t) \<noteq> Some DataError \<and>
                  fst (put M st args hs he t) \<noteq> Some DataError
             else add M st args hs he t = (Some DataError, t) \<and>
                  put M st args hs he t = (Some DataError, t)))"
  using assms
  by (auto simp: add_def put_def validateKey_def pushToQueue_def assertActive_def
        assertWritable_def split: option.splits)

theorem add_put_validate_key_witness:
  "add M0 (store_inline False) [JObj [(''id'', JNum 5)], JNum 3] [] [] tx0 = (Some DataError, tx0)
   \<and> add M0 (store_inline False) [JObj [(''n'', JNum 5)]] [] [] tx0 = (Some DataError, tx0)
   \<and> fst (put M0 (store_inline True) [JObj [(''n'', JNum 5)]] [] [] tx0) \<noteq> Some DataError
   \<and> put M0 (store_outline False) [JStr ''x''] [] [] tx0 = (Some DataError, tx0)
   \<and> fst (add M0 (store_outline True) [JStr ''x''] [] [] tx0) \<noteq> Some DataError"
proof -
  have a: "[JObj [(''id'', JNum 5)], JNum 3] \<noteq> []" "[JObj [(''n'', JNum 5)]] \<noteq> []"
    "[JStr ''x''] \<noteq> []" by simp_all
  have g: "Key_getValue M0 (JObj [(''n'', JNum 5)]) (JStr ''id'') = Undefined"
    by (simp add: M0_def getValue0_def)
  show ?thesis
    using add_put_validate_key [OF a(1), of "store_inline False" M0 "[]" "[]" tx0]
      add_put_validate_key [OF a(2), of "store_inline False" M0 "[]" "[]" tx0]
      add_put_validate_key [OF a(2), of "store_inline True" M0 "[]" "[]" tx0]
      add_put_validate_key [OF a(3), of "store_outline False" M0 "[]" "[]" tx0]
      add_put_validate_key [OF a(3), of "store_outline True" M0 "[]" "[]" tx0]
      g
    by (simp add: store_inline_def store_outline_def arg_def)
qed

text \<open>
  Claim C10. A store has a key path and the value given to \<open>add\<close> or \<open>put\<close> is not an
  object (it is falsy, or \<open>typeof\<close> does not say \<open>object\<close>): the call throws a DataError
  before it queues anything, whether or not the store has auto-increment.
\<close>

theorem non_object_value_data_error:
  assumes "args \<noteq> []" and "truthy (keyPath st)"
    and "\<not> (truthy (arg args 0) \<and> typeof_object (arg args 0))"
  shows "add M st args hs he t = (Some DataError, t)
       \<and> put M st args hs he t = (Some DataError, t)"
  using assms by (auto simp: add_def put_def validateKey_def)

theorem non_object_value_data_error_witness:
  "add M0 (store_inline True) [JNum 7] [] [] tx0 = (Some DataError, tx0)
   \<and> put M0 (store_inline True) [Null] [] [] tx0 = (Some DataError, tx0)"
proof -
  have a: "[JNum 7] \<noteq> []" "[Null] \<noteq> []" by simp_all
  have k: "truthy (keyPath (store_inline True))" by (simp add: store_inline_def)
  have v: "\<not> (truthy (arg [JNum 7] 0) \<and> typeof_object (arg [JNum 7] 0))"
     "\<not> (truthy (arg [Null] 0) \<and> typeof_object (arg [Null] 0))" by (simp_all add: arg_def)
  show ?thesis
    using non_object_value_data_error [OF a(1) k v(1), of M0 "[]" "[]" tx0]
      non_object_value_data_error [OF a(2) k v(2), of M0 "[]" "[]" tx0]
    by simp
qed

section \<open>Order of execution\<close>

text \<open>
  Claim C1. Whatever the caller, the timers and the backend do, in whatever order
  (any list of turns, also those in which a closure calls a continuation again, any
  handlers, any behaviour of the closures at their start), the trace of a transaction
  is in order: the operations start in the order in which they were queued,
  each one only after the one before it has been resolved by its success or error
  notification, and never while another one is in flight. And when \<open>n\<close> operations
  are queued in the caller's first turn and the backend answers each of them with
  success, all of them run, in that order, and the completion notifications follow.
\<close>

theorem operations_run_in_queue_order:
  "in_order (0, False) (trace (run beh evs (IDBTransaction m h1 h2 h3 h4))) \<noteq> None
   \<and> ((\<forall>f \<in> set fs. beh f = CallsBackend) \<and> length vs = length fs \<longrightarrow>
        trace (run beh (Caller (map (\<lambda>f. Enqueue f [] []) fs) # Timeout # SessionOpen #
                        map StatementSuccess vs)
                 (IDBTransaction m [] [] [] []))
        = fifo_trace 0 vs)"
proof (intro conjI impI)
  have "sched_inv (run beh evs (IDBTransaction m h1 h2 h3 h4))"
    by (rule inv_run[OF inv_new])
  then show "in_order (0, False) (trace (run beh evs (IDBTransaction m h1 h2 h3 h4))) \<noteq> None"
    by (auto simp: sched_inv_def sched_ok_def)
next
  assume a: "(\<forall>f \<in> set fs. beh f = CallsBackend) \<and> length vs = length fs"
  let ?t0 = "IDBTransaction m [] [] [] [] :: 'a txn"
  let ?rs = "map (\<lambda>i. \<lparr> rid = i, op = fs ! i, onsuccess = [], onerror = [] \<rparr>) [0 ..< length fs]"
  let ?t1 = "?t0\<lparr> requests := ?rs, created := length fs \<rparr>"
  let ?t2 = "?t1\<lparr> timers := [], running := True, session := Requested \<rparr>"
  have s1: "step beh ?t0 (Caller (map (\<lambda>f. Enqueue f [] []) fs)) = ?t1"
    using run_actions_enqueue_all[of ?t0 fs]
    by (simp add: step_def turn_def) (simp add: IDBTransaction_def)
  have s2: "step beh ?t1 Timeout = ?t2"
    by (simp add: step_def turn_def executeRequests_def IDBTransaction_def)
  have r: "run beh (Caller (map (\<lambda>f. Enqueue f [] []) fs) # Timeout # SessionOpen #
                    map StatementSuccess vs) ?t0
           = run beh (map StatementSuccess vs) (step beh ?t2 SessionOpen)"
    using s1 s2 by (simp add: run_def)
  show "trace (run beh (Caller (map (\<lambda>f. Enqueue f [] []) fs) # Timeout # SessionOpen #
                        map StatementSuccess vs) ?t0) = fifo_trace 0 vs"
  proof (cases vs)
    case Nil
    with a have "fs = []" by simp
    then have "trace (step beh ?t2 SessionOpen) = [OnComplete, OnCompleteInternal]"
      by (simp add: step_def turn_def executeNextRequest_def transactionFinished_def
          callback_def IDBTransaction_def)
    with r Nil show ?thesis by (simp add: run_def)
  next
    case (Cons v vs')
    with a have l: "0 < length fs" by auto
    let ?t3 = "?t2\<lparr> session := Opened, cur := Some (?rs ! 0), trace := [OpBegin 0],
                     inflight := True \<rparr>"
    have b0: "beh (fs ! 0) = CallsBackend" using a l by simp
    have s3: "step beh ?t2 SessionOpen = ?t3"
      using l b0
      by (simp add: step_def turn_def executeNextRequest_def start_op_def Let_def
          IDBTransaction_def del: upt_Suc)
    have "trace (run beh (map StatementSuccess (v # vs')) ?t3)
          = trace ?t3 @ OnSuccess (idx ?t3) v # fifo_trace (Suc (idx ?t3)) vs'"
      using a l Cons by (intro drain_all) (auto simp: IDBTransaction_def simp del: upt_Suc)
    then show ?thesis using r s3 Cons by (simp add: IDBTransaction_def)
  qed
qed

theorem operations_run_in_queue_order_witness:
  "trace (run beh0 [Caller [Enqueue (ObjectStoreClear (store_outline False)) [] [],
                            Enqueue (ObjectStoreCount (store_outline False) Undefined) [] []],
                    Timeout, SessionOpen, StatementSuccess Undefined, StatementSuccess (JNum 0)]
            (IDBTransaction ''readwrite'' [] [] [] []))
   = [OpBegin 0, OnSuccess 0 Undefined, OpBegin 1, OnSuccess 1 (JNum 0),
      OnComplete, OnCompleteInternal]"
proof -
  let ?fs = "[ObjectStoreClear (store_outline False),
              ObjectStoreCount (store_outline False) Undefined]"
  let ?vs = "[Undefined, JNum 0]"
  have h: "(\<forall>f \<in> set ?fs. beh0 f = CallsBackend) \<and> length ?vs = length ?fs"
    by (simp add: beh0_def)
  from operations_run_in_queue_order[of beh0 "[]" "''readwrite''" "[]" "[]" "[]" "[]" ?fs ?vs] h
  show ?thesis by simp
qed

section \<open>Enqueuing after the queue has drained\<close>




section \<open>The error continuation\<close>

text \<open>
  Claim C6. When the error continuation of the operation in \<open>q\<close> is called, the request
  of that operation is marked as failed with the error and its \<open>onerror\<close> notification
  is the next event; after that \<open>transactionError\<close> runs on the state the handler left,
  whether the handler returned or threw. So the transaction is marked \<open>errored\<close> in every
  case. If it had not failed before and is still active, its error notification fires,
  it records the error and is aborted; if it is no longer active, the error is thrown.
\<close>

theorem error_reaches_transaction_error:
  assumes "cur t = Some q"
  shows "results (snd (error e t)) (rid q) = Some (Failed e)
   \<and> take (Suc (length (trace t))) (trace (snd (error e t))) = trace t @ [OnError (rid q) e]
   \<and> snd (error e t) = snd (transactionError e (snd (fire_request_error e t)))
   \<and> errored (snd (error e t))
   \<and> (\<not> errored t \<and> active (snd (fire_request_error e t)) \<longrightarrow>
        TxOnError e \<in> set (trace (snd (error e t))) \<and>
        tx_error (snd (error e t)) = Some e \<and>
        \<not> active (snd (error e t)) \<and>
        last (timers (snd (error e t))) = AbortTimer)
   \<and> (\<not> errored t \<and> \<not> active (snd (fire_request_error e t)) \<longrightarrow>
        fst (error e t) = Some e \<and>
        trace (snd (error e t)) = trace t @ [OnError (rid q) e])"
proof -
  let ?t1 = "snd (fire_request_error e t)"
  have u: "snd (error e t) = snd (transactionError e ?t1)"
    by (simp add: error_def snd_try_finally)
  have f: "frame ?t1 (snd (transactionError e ?t1))" by (rule frame_transactionError)
  note ff = fire_request_error_fields[OF assms, of e]
  have r: "results (snd (error e t)) (rid q) = Some (Failed e)"
    using f ff(3) u by (simp add: frame_def)
  obtain es where es: "trace (snd (transactionError e ?t1)) = trace ?t1 @ es"
    using transactionError_trace_grows[of e ?t1] by auto
  have tk: "take (Suc (length (trace t))) (trace (snd (error e t))) = trace t @ [OnError (rid q) e]"
    using es ff(1) u by simp
  have a: "\<not> errored t \<and> active ?t1 \<longrightarrow>
        TxOnError e \<in> set (trace (snd (error e t))) \<and>
        tx_error (snd (error e t)) = Some e \<and>
        \<not> active (snd (error e t)) \<and>
        last (timers (snd (error e t))) = AbortTimer"
  proof
    assume h: "\<not> errored t \<and> active ?t1"
    then have ne: "\<not> errored ?t1" and ac: "active ?t1" using ff(2) by simp_all
    show "TxOnError e \<in> set (trace (snd (error e t))) \<and>
        tx_error (snd (error e t)) = Some e \<and>
        \<not> active (snd (error e t)) \<and>
        last (timers (snd (error e t))) = AbortTimer"
      using transactionError_active_effect[OF ne ac, of e] u by simp
  qed
  have b: "\<not> errored t \<and> \<not> active ?t1 \<longrightarrow>
        fst (error e t) = Some e \<and> trace (snd (error e t)) = trace t @ [OnError (rid q) e]"
  proof
    assume h: "\<not> errored t \<and> \<not> active ?t1"
    then have ne: "\<not> errored ?t1" and ac: "\<not> active ?t1" using ff(2) by simp_all
    have "transactionError e ?t1 = (Some e, ?t1\<lparr> errored := True \<rparr>)"
      by (rule transactionError_inactive[OF ne ac])
    then show "fst (error e t) = Some e \<and> trace (snd (error e t)) = trace t @ [OnError (rid q) e]"
      using ff(1) u by (simp add: error_def fst_try_finally)
  qed
  show ?thesis using r tk u error_errored[of e t] a b by simp
qed

theorem error_reaches_transaction_error_witness:
  "fst (fire_request_error (SqlError ''x'') tx_inflight) = Some (Thrown ''handler'')
   \<and> results (snd (error (SqlError ''x'') tx_inflight)) 0 = Some (Failed (SqlError ''x''))
   \<and> errored (snd (error (SqlError ''x'') tx_inflight))
   \<and> TxOnError (SqlError ''x'') \<in> set (trace (snd (error (SqlError ''x'') tx_inflight)))
   \<and> tx_error (snd (error (SqlError ''x'') tx_inflight)) = Some (SqlError ''x'')
   \<and> \<not> active (snd (error (SqlError ''x'') tx_inflight))"
proof -
  let ?q = "\<lparr> rid = 0, op = ObjectStoreClear (store_outline False), onsuccess = [],
               onerror = [Throw (Thrown ''handler'')] \<rparr>"
  have t: "tx_inflight =
     (tx0 :: unit_of_work txn)\<lparr> running := True, requests := [?q], cur := Some ?q, timers := [],
          session := Opened, inflight := True, created := 1, trace := [OpBegin 0] \<rparr>"
    by (simp add: tx_inflight_def run_def step_def turn_def pushToQueue_if executeRequests_def
        executeNextRequest_def start_op_def beh0_def tx0_def IDBTransaction_def Let_def)
  have c: "cur tx_inflight = Some ?q" by (simp add: t)
  have rid0: "rid ?q = 0" by simp
  have f: "fst (fire_request_error (SqlError ''x'') tx_inflight) = Some (Thrown ''handler'')"
    by (simp add: t fire_request_error_def callback_def)
  have a: "\<not> errored tx_inflight \<and> active (snd (fire_request_error (SqlError ''x'') tx_inflight))"
    by (simp add: t fire_request_error_def callback_def tx0_def IDBTransaction_def)
  from error_reaches_transaction_error[OF c, of "SqlError ''x''"] f a
  show ?thesis unfolding rid0 by blast
qed

section \<open>\<open>abort\<close>\<close>

text \<open>
  Claim C4, as the spec states it, fails in its last part: an operation that is queued
  and not yet started when \<open>abort()\<close> is called still runs, and its request resolves.
  Here the caller queues one operation and calls \<open>abort()\<close> in the same turn; both timers
  fire, \<open>db.transaction\<close> calls back and \<open>executeNextRequest\<close> starts the operation (it
  does not look at \<open>__active\<close> before it calls \<open>q.op\<close>); the backend answers and the
  request succeeds.
\<close>

theorem abort_discards_counterexample:
  "trace (run beh0 [Caller [Enqueue (ObjectStoreClear (store_outline False)) [] [], CallAbort],
                    Timeout, Timeout, SessionOpen, StatementSuccess Undefined] tx0)
     = [OnAbort, OpBegin 0, OnSuccess 0 Undefined]
   \<and> results (run beh0 [Caller [Enqueue (ObjectStoreClear (store_outline False)) [] [], CallAbort],
                    Timeout, Timeout, SessionOpen, StatementSuccess Undefined] tx0) 0
     = Some (Succeeded Undefined)"
  by (simp add: run_def step_def turn_def pushToQueue_if abort_def executeRequests_def
      callback_def executeNextRequest_def start_op_def success_def beh0_def tx0_def
      IDBTransaction_def Let_def)

text \<open>
  Claim C4, amended. After \<open>abort()\<close> the transaction is inactive at once, and it stays
  inactive whatever turns follow (timers, answers of the backend, code of the caller):
  from then on every push is refused with TransactionInactiveError and queues nothing.
  \<open>abort()\<close> fires no notification itself, it leaves a timer behind, and no turn other
  than that of a timer adds an abort notification to the trace; when the timer fires,
  the abort notification is the next event. \<open>abort()\<close> leaves the queue and the position
  in it as they are, and \<open>executeNextRequest\<close>, on a transaction that was aborted, still
  starts the request at that position.
\<close>

theorem abort_effect:
  "\<not> active (abort t) \<and> trace (abort t) = trace t \<and> timers (abort t) = timers t @ [AbortTimer]
   \<and> requests (abort t) = requests t \<and> idx (abort t) = idx t
   \<and> pushToQueue f hs he (abort t) = (Some TransactionInactiveError, abort t)
   \<and> \<not> active (run beh evs (abort t))
   \<and> pushToQueue f hs he (run beh evs (abort t))
        = (Some TransactionInactiveError, run beh evs (abort t))
   \<and> (ev \<noteq> Timeout \<longrightarrow> emits (\<lambda>x. x \<noteq> OnAbort) t (step beh t ev))
   \<and> (timers t = AbortTimer # ts \<longrightarrow> trace (snd (turn beh Timeout t)) = trace t @ [OnAbort])
   \<and> (idx t < length (requests t) \<longrightarrow>
        take (Suc (length (trace t))) (trace (snd (executeNextRequest beh (abort t))))
          = trace t @ [OpBegin (rid (requests t ! idx t))])"
proof (intro conjI impI)
  show "pushToQueue f hs he (abort t) = (Some TransactionInactiveError, abort t)"
    by (simp add: pushToQueue_if abort_fields)
next
  have "\<not> active (abort t)" by (simp add: abort_fields)
  then show i: "\<not> active (run beh evs (abort t))" by (rule run_inactive)
  show "pushToQueue f hs he (run beh evs (abort t))
        = (Some TransactionInactiveError, run beh evs (abort t))"
    using i by (simp add: pushToQueue_if)
next
  assume "ev \<noteq> Timeout"
  then show "emits (\<lambda>x. x \<noteq> OnAbort) t (step beh t ev)"
    by (intro emits_step) simp_all
next
  assume "timers t = AbortTimer # ts"
  then show "trace (snd (turn beh Timeout t)) = trace t @ [OnAbort]"
    by (simp add: turn_def callback_fields)
next
  assume "idx t < length (requests t)"
  then have "idx (abort t) < length (requests (abort t))" by (simp add: abort_fields)
  from executeNextRequest_begins[OF this, of beh]
  show "take (Suc (length (trace t))) (trace (snd (executeNextRequest beh (abort t))))
          = trace t @ [OpBegin (rid (requests t ! idx t))]"
    by (simp add: abort_fields)
qed (simp_all add: abort_fields)

theorem abort_effect_witness:
  "\<not> active (abort tx0)
   \<and> \<not> active (run beh0 [Timeout, SessionOpen, Timeout, Caller [CallAbort]] (abort tx0))
   \<and> pushToQueue (ObjectStoreClear (store_outline False)) [] []
        (run beh0 [Timeout, SessionOpen, Timeout, Caller [CallAbort]] (abort tx0))
       = (Some TransactionInactiveError,
          run beh0 [Timeout, SessionOpen, Timeout, Caller [CallAbort]] (abort tx0))
   \<and> emits (\<lambda>x. x \<noteq> OnAbort) tx0 (step beh0 tx0 (Caller [CallAbort]))
   \<and> trace (snd (turn beh0 Timeout (step beh0 (abort tx0) Timeout))) = [OnAbort]
   \<and> take 1 (trace (snd (executeNextRequest beh0
         (abort (snd (pushToQueue (ObjectStoreClear (store_outline False)) [] [] tx0))))))
       = [OpBegin 0]"
proof -
  let ?c = "ObjectStoreClear (store_outline False)"
  let ?tq = "snd (pushToQueue ?c [] [] tx0)"
  let ?ta = "step beh0 (abort tx0) Timeout"
  let ?evs = "[Timeout, SessionOpen, Timeout, Caller [CallAbort]]"
  have e: "(Caller [CallAbort] :: unit_of_work turn) \<noteq> Timeout" by simp
  have a: "timers ?ta = AbortTimer # []" "trace ?ta = []"
    by (simp_all add: step_def turn_def abort_def executeRequests_def tx0_def IDBTransaction_def)
  have q: "idx ?tq < length (requests ?tq)" "trace ?tq = []" "rid (requests ?tq ! idx ?tq) = 0"
    by (simp_all add: pushToQueue_if tx0_def IDBTransaction_def)
  note w1 = abort_effect[where t = tx0 and ev = "Caller [CallAbort]" and beh = beh0
      and f = ?c and hs = "[]" and he = "[]" and ts = "[]" and evs = ?evs]
  note w2 = abort_effect[where t = ?ta and ev = "Caller [CallAbort]" and beh = beh0
      and f = ?c and hs = "[]" and he = "[]" and ts = "[]" and evs = ?evs]
  note w3 = abort_effect[where t = ?tq and ev = "Caller [CallAbort]" and beh = beh0
      and f = ?c and hs = "[]" and he = "[]" and ts = "[]" and evs = ?evs]
  have c1: "\<not> active (abort tx0)" using w1 by blast
  have c2: "\<not> active (run beh0 ?evs (abort tx0))" using w1 by blast
  have c3: "pushToQueue ?c [] [] (run beh0 ?evs (abort tx0))
       = (Some TransactionInactiveError, run beh0 ?evs (abort tx0))" using w1 by blast
  have c4: "emits (\<lambda>x. x \<noteq> OnAbort) tx0 (step beh0 tx0 (Caller [CallAbort]))"
    using w1 e by blast
  have c5: "trace (snd (turn beh0 Timeout ?ta)) = [OnAbort]" using w2 a by simp
  have c6: "take 1 (trace (snd (executeNextRequest beh0 (abort ?tq)))) = [OpBegin 0]"
    using w3 q by simp
  show ?thesis using c1 c2 c3 c4 c5 c6 by blast
qed

section \<open>The terminal notifications\<close>




section \<open>\<open>get\<close>\<close>

text \<open>
  Claim C8. The callback of the lookup that \<open>get\<close> queues calls the success
  continuation, never the error continuation: with \<open>undefined\<close> when no row matches
  (once more with \<open>undefined\<close> if that call throws, since \<open>return success()\<close> stands inside
  the \<open>try\<close>), with the decoded value of the first row when there is one, and with
  \<open>undefined\<close> when decoding that value throws. With the continuations of the scheduler,
  the next event of the trace is the success notification of the request, with that
  result.
\<close>

theorem get_resolves:
  "(fst (success_k Undefined s) = None \<longrightarrow>
      objectStoreGet M success_k error_k (Rows []) s = success_k Undefined s)
   \<and> (fst (success_k Undefined s) \<noteq> None \<longrightarrow>
      objectStoreGet M success_k error_k (Rows []) s
        = success_k Undefined (snd (success_k Undefined s)))
   \<and> (rows \<noteq> [] \<and> Sca_decode M (value_col (rows ! 0)) = Inr v \<longrightarrow>
      objectStoreGet M success_k error_k (Rows rows) s = success_k v s)
   \<and> (rows \<noteq> [] \<and> Sca_decode M (value_col (rows ! 0)) = Inl e \<longrightarrow>
      objectStoreGet M success_k error_k (Rows rows) s = success_k Undefined s)
   \<and> (cur t = Some q \<longrightarrow>
      take (Suc (length (trace t)))
        (trace (snd (objectStoreGet M (success beh) error (Rows []) t)))
        = trace t @ [OnSuccess (rid q) Undefined])
   \<and> (cur t = Some q \<and> rows \<noteq> [] \<longrightarrow>
      take (Suc (length (trace t)))
        (trace (snd (objectStoreGet M (success beh) error (Rows rows) t)))
        = trace t @ [OnSuccess (rid q)
                       (case Sca_decode M (value_col (rows ! 0)) of
                          Inl e \<Rightarrow> Undefined | Inr v \<Rightarrow> v)])"
proof (intro conjI impI)
  assume "fst (success_k Undefined s) = None"
  then show "objectStoreGet M success_k error_k (Rows []) s = success_k Undefined s"
    by (cases "success_k Undefined s") (simp add: objectStoreGet_def)
next
  assume "fst (success_k Undefined s) \<noteq> None"
  then show "objectStoreGet M success_k error_k (Rows []) s
        = success_k Undefined (snd (success_k Undefined s))"
    by (cases "success_k Undefined s") (auto simp: objectStoreGet_def)
next
  assume "rows \<noteq> [] \<and> Sca_decode M (value_col (rows ! 0)) = Inr v"
  then show "objectStoreGet M success_k error_k (Rows rows) s = success_k v s"
    by (simp add: objectStoreGet_def)
next
  assume "rows \<noteq> [] \<and> Sca_decode M (value_col (rows ! 0)) = Inl e"
  then show "objectStoreGet M success_k error_k (Rows rows) s = success_k Undefined s"
    by (simp add: objectStoreGet_def)
next
  assume c: "cur t = Some q"
  obtain x t1 where s1: "success beh Undefined t = (x, t1)" by (cases "success beh Undefined t")
  from success_begins[OF c, of beh Undefined] s1
  have b: "take (Suc (length (trace t))) (trace t1) = trace t @ [OnSuccess (rid q) Undefined]"
    by simp
  show "take (Suc (length (trace t)))
        (trace (snd (objectStoreGet M (success beh) error (Rows []) t)))
        = trace t @ [OnSuccess (rid q) Undefined]"
  proof (cases x)
    case None
    with s1 b show ?thesis by (simp add: objectStoreGet_def)
  next
    case (Some a)
    have l: "length (trace t) < length (trace t1)"
    proof (rule ccontr)
      assume "\<not> length (trace t) < length (trace t1)"
      then have "length (take (Suc (length (trace t))) (trace t1)) \<le> length (trace t)" by simp
      with b show False by simp
    qed
    from success_keeps_first[OF b l, of beh Undefined] s1 Some
    show ?thesis by (simp add: objectStoreGet_def)
  qed
next
  assume "cur t = Some q \<and> rows \<noteq> []"
  then show "take (Suc (length (trace t)))
        (trace (snd (objectStoreGet M (success beh) error (Rows rows) t)))
        = trace t @ [OnSuccess (rid q)
                       (case Sca_decode M (value_col (rows ! 0)) of
                          Inl e \<Rightarrow> Undefined | Inr v \<Rightarrow> v)]"
    by (cases "Sca_decode M (value_col (rows ! 0))")
       (simp_all add: objectStoreGet_def success_begins)
qed

theorem get_resolves_witness:
  "objectStoreGet M0 (\<lambda>v vs. (None, vs @ [v])) (\<lambda>e vs. (Some e, vs)) (Rows []) [] = (None, [Undefined])
   \<and> objectStoreGet M0 (\<lambda>v vs. (Some (Thrown ''h''), vs @ [v])) (\<lambda>e vs. (Some e, vs)) (Rows []) []
       = (Some (Thrown ''h''), [Undefined, Undefined])
   \<and> objectStoreGet M0 (\<lambda>v vs. (None, vs @ [v])) (\<lambda>e vs. (Some e, vs))
         (Rows [\<lparr> cols = [(''key'', ''n1'')], value_col = ''sabc'' \<rparr>]) []
       = (None, [JStr ''abc''])
   \<and> objectStoreGet M0 (\<lambda>v vs. (None, vs @ [v])) (\<lambda>e vs. (Some e, vs))
         (Rows [\<lparr> cols = [(''key'', ''n1'')], value_col = ''?'' \<rparr>]) []
       = (None, [Undefined])
   \<and> take 2 (trace (snd (objectStoreGet M0 (success beh0) error (Rows [])
                            (tx_inflight\<lparr> inflight := False \<rparr>))))
       = [OpBegin 0, OnSuccess 0 Undefined]
   \<and> take 2 (trace (snd (objectStoreGet M0 (success beh0) error
                            (Rows [\<lparr> cols = [(''key'', ''n1'')], value_col = ''?'' \<rparr>])
                            (tx_inflight\<lparr> inflight := False \<rparr>))))
       = [OpBegin 0, OnSuccess 0 Undefined]"
proof -
  let ?q = "\<lparr> rid = 0, op = ObjectStoreClear (store_outline False), onsuccess = [],
               onerror = [Throw (Thrown ''handler'')] \<rparr>"
  let ?ok = "\<lparr> cols = [(''key'', ''n1'')], value_col = ''sabc'' \<rparr>"
  let ?bad = "\<lparr> cols = [(''key'', ''n1'')], value_col = ''?'' \<rparr>"
  let ?t = "tx_inflight\<lparr> inflight := False \<rparr>"
  let ?k = "\<lambda>v vs. (None :: jserror option, vs @ [v :: jsval])"
  let ?kt = "\<lambda>v vs. (Some (Thrown ''h''), vs @ [v :: jsval])"
  let ?ek = "\<lambda>e vs. (Some (e :: jserror), vs :: jsval list)"
  have t: "tx_inflight =
     (tx0 :: unit_of_work txn)\<lparr> running := True, requests := [?q], cur := Some ?q, timers := [],
          session := Opened, inflight := True, created := 1, trace := [OpBegin 0] \<rparr>"
    by (simp add: tx_inflight_def run_def step_def turn_def pushToQueue_if executeRequests_def
        executeNextRequest_def start_op_def beh0_def tx0_def IDBTransaction_def Let_def)
  have c: "cur ?t = Some ?q" "trace ?t = [OpBegin 0]" by (simp_all add: t)
  have d: "Sca_decode M0 (value_col (?ok)) = Inr (JStr ''abc'')"
    "Sca_decode M0 (value_col (?bad)) = Inl (Thrown ''malformed'')"
    by (simp_all add: M0_def sca_decode0_def)
  note w1 = get_resolves[where success_k = ?k and error_k = ?ek and s = "[]" and M = M0
      and rows = "[?ok]" and v = "JStr ''abc''" and e = "Thrown ''malformed''"
      and t = ?t and q = ?q and beh = beh0]
  note w2 = get_resolves[where success_k = ?kt and error_k = ?ek and s = "[]" and M = M0
      and rows = "[?bad]" and v = "JStr ''abc''" and e = "Thrown ''malformed''"
      and t = ?t and q = ?q and beh = beh0]
  note w3 = get_resolves[where success_k = ?k and error_k = ?ek and s = "[]" and M = M0
      and rows = "[?bad]" and v = "JStr ''abc''" and e = "Thrown ''malformed''"
      and t = ?t and q = ?q and beh = beh0]
  show ?thesis using w1 w2 w3 c d by (simp add: numeral_2_eq_2)
qed

section \<open>\<open>put\<close> against \<open>add\<close>\<close>

text \<open>
  Claim C3. \<open>put\<close> deletes by the primary key and then inserts, but \<open>__insertData\<close> keeps
  the primary key and the keys of the indexes in one parameter object, under the name
  \<open>key\<close> and under the names of the indexes: for a store with an index named \<open>key\<close>
  the loop over the indexes overwrites \<open>paramMap.key\<close>, and the row goes into the table
  under the key of the index. Here the store holds the keys 1 and 2, put there by two
  calls of \<open>add\<close>; \<open>put\<close> with the existing key 1 and a value whose \<open>k\<close> is 2 passes the
  checks of \<open>put\<close>, deletes the row of key 1, inserts under the key of the row of key 2,
  and ends in a ConstraintError.
\<close>

theorem put_existing_key_failing_input:
  "objectStoreAdd M0 store_keyindex (JObj [(''k'', JNum 1)]) (JNum 1) (Rows []) []
     = (CallsSuccess (JNum 1), [\<lparr> cols = [(''key'', ''n1'')], value_col = ''u'' \<rparr>])
   \<and> objectStoreAdd M0 store_keyindex (JObj [(''k'', JNum 2)]) (JNum 2) (Rows [])
        [\<lparr> cols = [(''key'', ''n1'')], value_col = ''u'' \<rparr>]
     = (CallsSuccess (JNum 2), [\<lparr> cols = [(''key'', ''n1'')], value_col = ''u'' \<rparr>,
                                \<lparr> cols = [(''key'', ''n11'')], value_col = ''u'' \<rparr>])
   \<and> fst (put M0 store_keyindex [JObj [(''k'', JNum 2)], JNum 1] [] [] tx0) = None
   \<and> objectStorePut M0 store_keyindex (JObj [(''k'', JNum 2)]) (JNum 1) (Rows [])
        [\<lparr> cols = [(''key'', ''n1'')], value_col = ''u'' \<rparr>,
         \<lparr> cols = [(''key'', ''n11'')], value_col = ''u'' \<rparr>]
     = (CallsError ConstraintError, [\<lparr> cols = [(''key'', ''n11'')], value_col = ''u'' \<rparr>])"
proof (intro conjI)
  show "fst (put M0 store_keyindex [JObj [(''k'', JNum 2)], JNum 1] [] [] tx0) = None"
    by (simp add: put_def validateKey_def arg_def store_keyindex_def M0_def validate0_def
        assertWritable_def pushToQueue_if tx0_def IDBTransaction_def)
qed (simp_all add: objectStoreAdd_def objectStorePut_def deriveKey_def insertData_def
      paramMap_def sql_insert_def sql_delete_def row_key_def store_keyindex_def M0_def
      validate0_def encode0_def sca_decode0_def getValue0_def numeral_2_eq_2)

text \<open>
  Apart from such a store the two methods do what the claim says. \<open>put\<close> raises exactly
  what \<open>add\<close> raises on the same arguments and transaction, and queues the same request
  but for the closure. The closure of \<open>put\<close>, once the key is derived and valid, runs the
  insert of \<open>add\<close> on the table from which the rows with that key have been deleted. When
  no index of the store is named \<open>key\<close>, \<open>put\<close> never ends in a ConstraintError, whatever
  the table holds, while \<open>add\<close> with a key that a row of the table already has ends in a
  ConstraintError and leaves the table as it was.
\<close>

theorem put_replaces_add_rejects:
  "fst (put M st args hs he t) = fst (add M st args hs he t)
   \<and> snd (put M st args hs he t) =
       (if fst (add M st args hs he t) = None
        then t\<lparr> requests := requests t @
                   [\<lparr> rid = created t, op = ObjectStorePut st (arg args 0) (arg args 1),
                      onsuccess = hs, onerror = he \<rparr>],
                 created := Suc (created t) \<rparr>
        else t)
   \<and> (pk = (if truthy (keyPath st) then Key_getValue M v (keyPath st) else key) \<and>
       \<not> (pk = Undefined \<and> autoIncrement st) \<and> Key_validate M pk \<longrightarrow>
         objectStorePut M st v key lookup tbl
           = insertData M st (sql_delete tbl (Key_encode M pk False)) (Sca_encode M v) v pk)
   \<and> (''key'' \<notin> set (map index_name (indexes st)) \<longrightarrow>
         fst (objectStorePut M st v key lookup tbl) \<noteq> CallsError ConstraintError)
   \<and> (''key'' \<notin> set (map index_name (indexes st)) \<and>
       pk = (if truthy (keyPath st) then Key_getValue M v (keyPath st) else key) \<and>
       pk \<noteq> Undefined \<and> Key_validate M pk \<and>
       Some (Key_encode M pk False) \<in> set (map row_key tbl) \<longrightarrow>
         objectStoreAdd M st v key lookup tbl = (CallsError ConstraintError, tbl))"
proof (intro conjI impI)
  show "fst (put M st args hs he t) = fst (add M st args hs he t)"
    by (simp add: put_def add_def pushToQueue_if split: sum.splits option.splits)
next
  show "snd (put M st args hs he t) =
       (if fst (add M st args hs he t) = None
        then t\<lparr> requests := requests t @
                   [\<lparr> rid = created t, op = ObjectStorePut st (arg args 0) (arg args 1),
                      onsuccess = hs, onerror = he \<rparr>],
                 created := Suc (created t) \<rparr>
        else t)"
    by (simp add: put_def add_def pushToQueue_if split: sum.splits option.splits)
next
  assume "pk = (if truthy (keyPath st) then Key_getValue M v (keyPath st) else key) \<and>
       \<not> (pk = Undefined \<and> autoIncrement st) \<and> Key_validate M pk"
  then have pk: "pk = (if truthy (keyPath st) then Key_getValue M v (keyPath st) else key)"
    and ng: "\<not> (pk = Undefined \<and> autoIncrement st)" and va: "Key_validate M pk"
    by blast+
  show "objectStorePut M st v key lookup tbl
           = insertData M st (sql_delete tbl (Key_encode M pk False)) (Sca_encode M v) v pk"
  proof (cases "truthy (keyPath st)")
    case True
    with pk ng va show ?thesis
      by (auto simp: objectStorePut_def deriveKey_def Let_def in_callback_insertData)
  next
    case False
    with pk ng va show ?thesis
      by (auto simp: objectStorePut_def deriveKey_def in_callback_insertData)
  qed
next
  assume k: "''key'' \<notin> set (map index_name (indexes st))"
  show "fst (objectStorePut M st v key lookup tbl) \<noteq> CallsError ConstraintError"
    unfolding objectStorePut_def
  proof (rule deriveKey_not_CallsError)
    fix pk' v'
    show "fst (if \<not> Key_validate M pk' then (Throws DataError, tbl)
               else in_callback (insertData M st (sql_delete tbl (Key_encode M pk' False))
                                   (Sca_encode M v') v' pk'))
          \<noteq> CallsError ConstraintError"
      using insertData_after_delete[OF k, of M tbl pk' "Sca_encode M v'" v']
      by (simp add: in_callback_insertData)
  next
    show "fst (CallsError DataError, tbl) \<noteq> CallsError ConstraintError" by simp
  qed
next
  assume a: "''key'' \<notin> set (map index_name (indexes st)) \<and>
       pk = (if truthy (keyPath st) then Key_getValue M v (keyPath st) else key) \<and>
       pk \<noteq> Undefined \<and> Key_validate M pk \<and>
       Some (Key_encode M pk False) \<in> set (map row_key tbl)"
  then have k: "''key'' \<notin> set (map index_name (indexes st))"
    and pk: "pk = (if truthy (keyPath st) then Key_getValue M v (keyPath st) else key)"
    and nu: "pk \<noteq> Undefined" and va: "Key_validate M pk"
    and ex: "Some (Key_encode M pk False) \<in> set (map row_key tbl)"
    by blast+
  have m: "map_of (paramMap M st v pk) ''key'' = Some (Key_encode M pk False)"
    using paramMap_key[OF k, of M v pk] nu by simp
  have i: "insertData M st tbl (Sca_encode M v) v pk = (CallsError ConstraintError, tbl)"
    using nu va ex m by (simp add: insertData_def sql_insert_def del: set_map)
  have d: "deriveKey M st lookup v key
             (\<lambda>primaryKey v'. insertData M st tbl (Sca_encode M v') v' primaryKey)
             (\<lambda>e. (CallsError e, tbl))
           = insertData M st tbl (Sca_encode M v) v pk"
  proof (cases "truthy (keyPath st)")
    case True
    with pk nu show ?thesis by (simp add: deriveKey_def Let_def)
  next
    case False
    with pk nu show ?thesis by (simp add: deriveKey_def)
  qed
  show "objectStoreAdd M st v key lookup tbl = (CallsError ConstraintError, tbl)"
    using d i by (simp add: objectStoreAdd_def)
qed

theorem put_replaces_add_rejects_witness:
  "fst (put M0 (store_outline False) [JStr ''b'', JNum 1] [] [] tx0) = None
   \<and> objectStorePut M0 (store_outline False) (JStr ''b'') (JNum 1) (Rows [])
        [\<lparr> cols = [(''key'', ''n1'')], value_col = ''sa'' \<rparr>]
      = (CallsSuccess (JNum 1), [\<lparr> cols = [(''key'', ''n1'')], value_col = ''sb'' \<rparr>])
   \<and> objectStoreAdd M0 (store_outline False) (JStr ''b'') (JNum 1) (Rows [])
        [\<lparr> cols = [(''key'', ''n1'')], value_col = ''sa'' \<rparr>]
      = (CallsError ConstraintError, [\<lparr> cols = [(''key'', ''n1'')], value_col = ''sa'' \<rparr>])"
proof -
  let ?st = "store_outline False"
  let ?tbl = "[\<lparr> cols = [(''key'', ''n1'')], value_col = ''sa'' \<rparr>]"
  have h: "''key'' \<notin> set (map index_name (indexes ?st))"
    "JNum 1 = (if truthy (keyPath ?st) then Key_getValue M0 (JStr ''b'') (keyPath ?st) else JNum 1)"
    "\<not> (JNum 1 = Undefined \<and> autoIncrement ?st)" "Key_validate M0 (JNum 1)"
    "Some (Key_encode M0 (JNum 1) False) \<in> set (map row_key ?tbl)"
    by (simp_all add: store_outline_def M0_def validate0_def encode0_def row_key_def)
  have a: "fst (add M0 ?st [JStr ''b'', JNum 1] [] [] tx0) = None"
    by (simp add: add_def validateKey_def arg_def store_outline_def M0_def validate0_def
        assertWritable_def pushToQueue_if tx0_def IDBTransaction_def)
  have i: "insertData M0 ?st (sql_delete ?tbl (Key_encode M0 (JNum 1) False))
             (Sca_encode M0 (JStr ''b'')) (JStr ''b'') (JNum 1)
           = (CallsSuccess (JNum 1), [\<lparr> cols = [(''key'', ''n1'')], value_col = ''sb'' \<rparr>])"
    by (simp add: insertData_def sql_delete_def sql_insert_def paramMap_def row_key_def
        store_outline_def M0_def validate0_def encode0_def sca_decode0_def)
  note w = put_replaces_add_rejects[where M = M0 and st = ?st and args = "[JStr ''b'', JNum 1]"
      and hs = "[]" and he = "[]" and t = tx0 and pk = "JNum 1" and v = "JStr ''b''"
      and key = "JNum 1" and lookup = "Rows []" and tbl = ?tbl]
  show ?thesis using w h a i by simp
qed

section \<open>Generated keys\<close>

text \<open>
  Claim C2. While the lookup on \<open>sqlite_sequence\<close> returns no row, or the one row of the
  store, \<open>add\<close> generates what the claim says: the key 1 when there is no row, and
  the key 8 when the sequence of the store stands at 7. The statement selects
  with \<open>name like ?\<close>, though, so for the store \<open>a_c\<close> it also returns the row of a store
  \<open>abc\<close>, and with two rows \<open>getNextAutoIncKey\<close> takes the branch of \<open>callback(1)\<close>: with
  the sequence of the store at 7 the generated key is 1, not 8, and at the next \<open>add\<close>
  the generated key is 1 again, which is not greater and which the table refuses.
\<close>

theorem auto_increment_key_failing_input:
  "objectStoreAdd M0 store_wild (JStr ''x'') Undefined (Rows []) []
     = (CallsSuccess (JNum 1), [\<lparr> cols = [(''key'', ''n1'')], value_col = ''sx'' \<rparr>])
   \<and> fst (objectStoreAdd M0 store_wild (JStr ''x'') Undefined
             (Rows [\<lparr> seq_name = ''a_c'', seq = 7 \<rparr>]) [])
     = CallsSuccess (JNum 8)
   \<and> objectStoreAdd M0 store_wild (JStr ''x'') Undefined
      (Rows [\<lparr> seq_name = ''a_c'', seq = 7 \<rparr>, \<lparr> seq_name = ''abc'', seq = 3 \<rparr>]) []
     = (CallsSuccess (JNum 1), [\<lparr> cols = [(''key'', ''n1'')], value_col = ''sx'' \<rparr>])
   \<and> objectStoreAdd M0 store_wild (JStr ''y'') Undefined
      (Rows [\<lparr> seq_name = ''a_c'', seq = 8 \<rparr>, \<lparr> seq_name = ''abc'', seq = 3 \<rparr>])
      [\<lparr> cols = [(''key'', ''n1'')], value_col = ''sx'' \<rparr>]
     = (CallsError ConstraintError, [\<lparr> cols = [(''key'', ''n1'')], value_col = ''sx'' \<rparr>])"
  by (simp add: objectStoreAdd_def deriveKey_def getNextAutoIncKey_def insertData_def
      paramMap_def sql_insert_def row_key_def store_wild_def M0_def validate0_def encode0_def
      sca_decode0_def js_add_exact)

end
